theory Spec2Isabelle
  imports Complex_Main
begin

section \<open>JavaScript numbers\<close>

text \<open>
  Every \<open>number\<close> of \<open>color-helpers.ts\<close> is an IEEE-754 binary64 value. A finite value
  is kept as the rational it denotes, and every arithmetic operation rounds its exact
  result to the nearest binary64 value, ties to the even significand (\<open>fl\<close>), with
  gradual underflow below \<open>2 ^ -1022\<close> and overflow to an infinity from \<open>2 ^ 1024\<close> on
  (\<open>rnd\<close>). The two zeros are identified: the functions modelled here never divide by
  a negative zero and never print the sign of a zero.
\<close>

datatype jsnum = NaN | PosInf | NegInf | Fin rat

function bitlen :: "int \<Rightarrow> int" where
  \<comment> \<open>the number of binary digits of a positive integer\<close>
  "bitlen n = (if n \<le> 0 then 0 else 1 + bitlen (n div 2))"
  by pat_completeness auto
termination
  by (relation "measure nat") auto

declare bitlen.simps [simp del]

definition ilog2 :: "rat \<Rightarrow> int" where
  \<comment> \<open>the binary exponent \<open>\<lfloor>log\<^sub>2 x\<rfloor>\<close> of a positive rational\<close>
  "ilog2 x = (if 1 \<le> x then bitlen \<lfloor>x\<rfloor> - 1 else - bitlen (\<lceil>1 / x\<rceil> - 1))"

definition round_even :: "rat \<Rightarrow> int" where
  \<comment> \<open>nearest integer, a tie going to the even neighbour\<close>
  "round_even m =
     (let f = \<lfloor>m\<rfloor>; d = m - of_int f
      in if d < 1 / 2 then f else if 1 / 2 < d then f + 1
         else if even f then f else f + 1)"

definition ulp_exp :: "rat \<Rightarrow> int" where
  \<comment> \<open>exponent of the unit in the last place of the binade of \<open>x\<close> (53-bit significand)\<close>
  "ulp_exp x = max (ilog2 \<bar>x\<bar>) (- 1022) - 52"

definition fl :: "rat \<Rightarrow> rat" where
  "fl x = (if x = 0 then 0
           else of_int (round_even (x / 2 powi ulp_exp x)) * 2 powi ulp_exp x)"

definition rnd :: "rat \<Rightarrow> jsnum" where
  "rnd x = (let y = fl x
            in if y = 0 then Fin 0
               else if 1024 \<le> ilog2 \<bar>y\<bar> then (if y < 0 then NegInf else PosInf)
               else Fin y)"

fun jneg :: "jsnum \<Rightarrow> jsnum" where
  "jneg NaN = NaN"
| "jneg PosInf = NegInf"
| "jneg NegInf = PosInf"
| "jneg (Fin a) = Fin (- a)"

fun jadd :: "jsnum \<Rightarrow> jsnum \<Rightarrow> jsnum" where
  "jadd (Fin a) (Fin b) = rnd (a + b)"
| "jadd NaN _ = NaN"
| "jadd _ NaN = NaN"
| "jadd PosInf NegInf = NaN"
| "jadd NegInf PosInf = NaN"
| "jadd PosInf _ = PosInf"
| "jadd _ PosInf = PosInf"
| "jadd NegInf _ = NegInf"
| "jadd _ NegInf = NegInf"

definition jsub :: "jsnum \<Rightarrow> jsnum \<Rightarrow> jsnum" where
  "jsub a b = jadd a (jneg b)"

definition inf_of_sign :: "bool \<Rightarrow> jsnum" where
  "inf_of_sign negative = (if negative then NegInf else PosInf)"

fun jmul :: "jsnum \<Rightarrow> jsnum \<Rightarrow> jsnum" where
  "jmul (Fin a) (Fin b) = rnd (a * b)"
| "jmul NaN _ = NaN"
| "jmul _ NaN = NaN"
| "jmul (Fin a) PosInf = (if a = 0 then NaN else inf_of_sign (a < 0))"
| "jmul (Fin a) NegInf = (if a = 0 then NaN else inf_of_sign (0 < a))"
| "jmul PosInf (Fin b) = (if b = 0 then NaN else inf_of_sign (b < 0))"
| "jmul NegInf (Fin b) = (if b = 0 then NaN else inf_of_sign (0 < b))"
| "jmul PosInf PosInf = PosInf"
| "jmul NegInf NegInf = PosInf"
| "jmul PosInf NegInf = NegInf"
| "jmul NegInf PosInf = NegInf"

fun jdiv :: "jsnum \<Rightarrow> jsnum \<Rightarrow> jsnum" where
  "jdiv (Fin a) (Fin b) =
     (if b = 0 then (if a = 0 then NaN else inf_of_sign (a < 0)) else rnd (a / b))"
| "jdiv NaN _ = NaN"
| "jdiv _ NaN = NaN"
| "jdiv (Fin a) PosInf = Fin 0"
| "jdiv (Fin a) NegInf = Fin 0"
| "jdiv PosInf (Fin b) = inf_of_sign (b < 0)"
| "jdiv NegInf (Fin b) = inf_of_sign (0 \<le> b)"
| "jdiv PosInf PosInf = NaN"
| "jdiv PosInf NegInf = NaN"
| "jdiv NegInf PosInf = NaN"
| "jdiv NegInf NegInf = NaN"

fun jlt :: "jsnum \<Rightarrow> jsnum \<Rightarrow> bool" where
  "jlt (Fin a) (Fin b) = (a < b)"
| "jlt NaN _ = False"
| "jlt _ NaN = False"
| "jlt (Fin a) PosInf = True"
| "jlt (Fin a) NegInf = False"
| "jlt PosInf _ = False"
| "jlt NegInf (Fin b) = True"
| "jlt NegInf PosInf = True"
| "jlt NegInf NegInf = False"

definition jgt :: "jsnum \<Rightarrow> jsnum \<Rightarrow> bool" where
  "jgt a b = jlt b a"

definition jeq :: "jsnum \<Rightarrow> jsnum \<Rightarrow> bool" where
  \<comment> \<open>\<open>===\<close> on numbers: \<open>NaN\<close> equals nothing\<close>
  "jeq a b = (a \<noteq> NaN \<and> a = b)"

definition jle :: "jsnum \<Rightarrow> jsnum \<Rightarrow> bool" where
  "jle a b = (jlt a b \<or> jeq a b)"

definition Math_max2 :: "jsnum \<Rightarrow> jsnum \<Rightarrow> jsnum" where
  "Math_max2 a b = (if a = NaN \<or> b = NaN then NaN else if jlt a b then b else a)"

definition Math_min2 :: "jsnum \<Rightarrow> jsnum \<Rightarrow> jsnum" where
  "Math_min2 a b = (if a = NaN \<or> b = NaN then NaN else if jlt b a then b else a)"

definition Math_max :: "jsnum \<Rightarrow> jsnum \<Rightarrow> jsnum \<Rightarrow> jsnum" where
  "Math_max a b c = Math_max2 (Math_max2 a b) c"

definition Math_min :: "jsnum \<Rightarrow> jsnum \<Rightarrow> jsnum \<Rightarrow> jsnum" where
  "Math_min a b c = Math_min2 (Math_min2 a b) c"

fun Math_round :: "jsnum \<Rightarrow> jsnum" where
  \<comment> \<open>the nearest integer, a tie going up: \<open>\<lfloor>x + 1/2\<rfloor>\<close>, computed exactly\<close>
  "Math_round (Fin a) = Fin (of_int \<lfloor>a + 1 / 2\<rfloor>)"
| "Math_round x = x"

fun jmod :: "jsnum \<Rightarrow> jsnum \<Rightarrow> jsnum" where
  \<comment> \<open>\<open>%\<close>: the exact remainder of the division truncated towards zero\<close>
  "jmod (Fin a) (Fin b) =
     (if b = 0 then NaN
      else Fin (a - b * of_int (if 0 \<le> a / b then \<lfloor>a / b\<rfloor> else \<lceil>a / b\<rceil>)))"
| "jmod (Fin a) PosInf = Fin a"
| "jmod (Fin a) NegInf = Fin a"
| "jmod _ _ = NaN"

abbreviation num :: "int \<Rightarrow> jsnum" where
  "num k \<equiv> Fin (of_int k)"

section \<open>JavaScript strings\<close>

text \<open>
  A string is a list of code units below 256 (Latin-1). Above 127 the no-break space is
  white space, as in JavaScript, and \<open>toUpperCase\<close> raises the accented letters
  \<open>0xE0\<close> to \<open>0xFE\<close> (the division sign \<open>0xF7\<close> apart) to \<open>0xC0\<close> to \<open>0xDE\<close>.
  Three code units have an upper case that is not one code unit below 256: the micro
  sign \<open>0xB5\<close> (it becomes \<open>U+039C\<close>), the sharp s \<open>0xDF\<close> (it becomes \<open>SS\<close>) and the
  y with diaeresis \<open>0xFF\<close> (it becomes \<open>U+0178\<close>). The model leaves these three as they
  are; \<open>one_unit_upper\<close> holds of every other code unit, and a statement about the
  upper case of an arbitrary text is made for texts without the three.
\<close>

definition is_ws :: "char \<Rightarrow> bool" where
  \<comment> \<open>white space and line terminators: what \<open>trim\<close>, \<open>\s\<close> and \<open>parseInt\<close> skip\<close>
  "is_ws c = (c \<in> set [CHR 0x09, CHR 0x0A, CHR 0x0B, CHR 0x0C, CHR 0x0D, CHR '' '', CHR 0xA0])"

definition is_digit :: "char \<Rightarrow> bool" where
  "is_digit c = (c \<in> set ''0123456789'')"

abbreviation (input) lower_latin1 :: string where
  \<comment> \<open>the lower-case letters above 127 whose upper case is below 256\<close>
  "lower_latin1 \<equiv>
     [CHR 0xE0, CHR 0xE1, CHR 0xE2, CHR 0xE3, CHR 0xE4, CHR 0xE5, CHR 0xE6, CHR 0xE7,
      CHR 0xE8, CHR 0xE9, CHR 0xEA, CHR 0xEB, CHR 0xEC, CHR 0xED, CHR 0xEE, CHR 0xEF,
      CHR 0xF0, CHR 0xF1, CHR 0xF2, CHR 0xF3, CHR 0xF4, CHR 0xF5, CHR 0xF6, CHR 0xF8,
      CHR 0xF9, CHR 0xFA, CHR 0xFB, CHR 0xFC, CHR 0xFD, CHR 0xFE]"

abbreviation (input) upper_latin1 :: string where
  \<comment> \<open>their upper case, in the same order\<close>
  "upper_latin1 \<equiv>
     [CHR 0xC0, CHR 0xC1, CHR 0xC2, CHR 0xC3, CHR 0xC4, CHR 0xC5, CHR 0xC6, CHR 0xC7,
      CHR 0xC8, CHR 0xC9, CHR 0xCA, CHR 0xCB, CHR 0xCC, CHR 0xCD, CHR 0xCE, CHR 0xCF,
      CHR 0xD0, CHR 0xD1, CHR 0xD2, CHR 0xD3, CHR 0xD4, CHR 0xD5, CHR 0xD6, CHR 0xD8,
      CHR 0xD9, CHR 0xDA, CHR 0xDB, CHR 0xDC, CHR 0xDD, CHR 0xDE]"

definition upper_char :: "char \<Rightarrow> char" where
  "upper_char c =
     (case map_of (zip (''abcdefghijklmnopqrstuvwxyz'' @ lower_latin1)
                       (''ABCDEFGHIJKLMNOPQRSTUVWXYZ'' @ upper_latin1)) c of
        None \<Rightarrow> c
      | Some u \<Rightarrow> u)"

definition one_unit_upper :: "char \<Rightarrow> bool" where
  \<comment> \<open>the upper case of \<open>c\<close> is again one code unit below 256\<close>
  "one_unit_upper c = (c \<notin> set [CHR 0xB5, CHR 0xDF, CHR 0xFF])"

definition toUpperCase :: "string \<Rightarrow> string" where
  "toUpperCase str = map upper_char str"

definition trim :: "string \<Rightarrow> string" where
  "trim str = rev (dropWhile is_ws (rev (dropWhile is_ws str)))"

definition startsWith :: "string \<Rightarrow> string \<Rightarrow> bool" where
  "startsWith str pre = (take (length pre) str = pre)"

definition substring :: "string \<Rightarrow> nat \<Rightarrow> nat \<Rightarrow> string" where
  \<comment> \<open>\<open>str.substring(i, j)\<close> for \<open>i \<le> j\<close>; both ends are cut at the length\<close>
  "substring str i j = take (j - i) (drop i str)"

fun index_of :: "char \<Rightarrow> string \<Rightarrow> int \<Rightarrow> int option" where
  "index_of c [] i = None"
| "index_of c (x # xs) i = (if c = x then Some i else index_of c xs (i + 1))"

definition digit_val :: "char \<Rightarrow> int option" where
  \<comment> \<open>the value of a digit in a radix up to 36, in either case\<close>
  "digit_val c =
     (case index_of c ''0123456789abcdefghijklmnopqrstuvwxyz'' 0 of
        Some v \<Rightarrow> Some v
      | None \<Rightarrow> index_of c ''ABCDEFGHIJKLMNOPQRSTUVWXYZ'' 10)"

definition is_radix_digit :: "int \<Rightarrow> char \<Rightarrow> bool" where
  "is_radix_digit R c = (case digit_val c of None \<Rightarrow> False | Some v \<Rightarrow> v < R)"

fun digits_value :: "int \<Rightarrow> int \<Rightarrow> string \<Rightarrow> int" where
  "digits_value R acc [] = acc"
| "digits_value R acc (c # cs) =
     digits_value R (acc * R + (case digit_val c of None \<Rightarrow> 0 | Some v \<Rightarrow> v)) cs"

definition parseInt :: "string \<Rightarrow> int \<Rightarrow> jsnum" where
  \<comment> \<open>\<open>parseInt(str, radix)\<close>; radix \<open>0\<close> stands for a call without a radix.
      Leading white space and one sign are skipped, a \<open>0x\<close> prefix is skipped for radix
      16 or none, and the longest run of digits is read; no digit gives \<open>NaN\<close>.\<close>
  "parseInt str radix =
     (let s0 = dropWhile is_ws str;
          negative = startsWith s0 ''-'';
          s1 = (if startsWith s0 ''-'' \<or> startsWith s0 ''+'' then tl s0 else s0);
          prefixed = ((radix = 0 \<or> radix = 16)
                        \<and> (startsWith s1 ''0x'' \<or> startsWith s1 ''0X''));
          R = (if prefixed then 16 else if radix = 0 then 10 else radix);
          s2 = (if prefixed then drop 2 s1 else s1);
          z = takeWhile (is_radix_digit R) s2
      in if R < 2 \<or> 36 < R then NaN
         else if z = [] then NaN
         else rnd (of_int ((if negative then - 1 else 1) * digits_value R 0 z)))"

definition hex_char :: "int \<Rightarrow> char" where
  "hex_char d = ''0123456789abcdef'' ! nat d"

function hex_digits :: "int \<Rightarrow> string" where
  "hex_digits n =
     (if n < 16 then [hex_char n] else hex_digits (n div 16) @ [hex_char (n mod 16)])"
  by pat_completeness auto
termination
  by (relation "measure nat") auto

declare hex_digits.simps [simp del]

fun toString16 :: "jsnum \<Rightarrow> string" where
  \<comment> \<open>\<open>n.toString(16)\<close> of an integral or non-finite number\<close>
  "toString16 NaN = ''NaN''"
| "toString16 PosInf = ''Infinity''"
| "toString16 NegInf = ''-Infinity''"
| "toString16 (Fin a) =
     (if a < 0 then ''-'' @ hex_digits (- \<lfloor>a\<rfloor>) else hex_digits \<lfloor>a\<rfloor>)"

subsection \<open>The two regular expressions\<close>

text \<open>
  A pattern is a sequence of items: a character (compared without case, the flag
  \<open>i\<close>), a captured run of one or more digits \<open>(\d+)\<close>, or a run of white space
  \<open>\s*\<close>. In both patterns of \<open>parseColor\<close> a run of digits is followed by an item
  that no digit matches, and a run of white space by one that no white space matches,
  so taking the longest run is what the backtracking matcher settles on.
\<close>

datatype item = Chr char | Digits | Spaces

fun match_items :: "item list \<Rightarrow> string \<Rightarrow> string list \<Rightarrow> string list option" where
  "match_items [] str caps = Some (rev caps)"
| "match_items (Chr c # ps) str caps =
     (case str of [] \<Rightarrow> None
      | x # xs \<Rightarrow> if upper_char x = upper_char c then match_items ps xs caps else None)"
| "match_items (Digits # ps) str caps =
     (if takeWhile is_digit str = [] then None
      else match_items ps (dropWhile is_digit str) (takeWhile is_digit str # caps))"
| "match_items (Spaces # ps) str caps = match_items ps (dropWhile is_ws str) caps"

fun match :: "string \<Rightarrow> item list \<Rightarrow> string list option" where
  \<comment> \<open>\<open>str.match(pattern)\<close>: the captures of the leftmost match, \<open>None\<close> for \<open>null\<close>.
      The list holds the groups only, so \<open>m ! 0\<close> is the source's \<open>match[1]\<close>.\<close>
  "match [] ps = match_items ps [] []"
| "match (x # xs) ps =
     (case match_items ps (x # xs) [] of Some caps \<Rightarrow> Some caps | None \<Rightarrow> match xs ps)"

definition rgb_pattern :: "item list" where
  \<comment> \<open>\<open>/rgb\((\d+),\s*(\d+),\s*(\d+)\)/i\<close>\<close>
  "rgb_pattern =
     map Chr ''rgb('' @ [Digits, Chr CHR '','', Spaces, Digits, Chr CHR '','', Spaces,
                        Digits, Chr CHR '')'']"

definition hsl_pattern :: "item list" where
  \<comment> \<open>\<open>/hsl\((\d+),\s*(\d+)%,\s*(\d+)%\)/i\<close>\<close>
  "hsl_pattern =
     map Chr ''hsl('' @ [Digits, Chr CHR '','', Spaces, Digits, Chr CHR ''%'', Chr CHR '','',
                        Spaces, Digits, Chr CHR ''%'', Chr CHR '')'']"

definition is_hex6 :: "string \<Rightarrow> bool" where
  \<comment> \<open>\<open>/^[0-9A-F]{6}$/i.test(str)\<close>\<close>
  "is_hex6 str = (length str = 6 \<and> list_all (is_radix_digit 16) str)"

section \<open>The colour functions of \<open>color-helpers.ts\<close>\<close>

record RGB =
  rgb_r :: jsnum
  rgb_g :: jsnum
  rgb_b :: jsnum

record HSL =
  hsl_h :: jsnum
  hsl_s :: jsnum
  hsl_l :: jsnum

record ColorInfo =
  hex :: string
  rgb :: RGB
  hsl :: HSL
  name :: "string option"

datatype error = Error string

definition InvalidFormat :: error where
  "InvalidFormat =
     Error ''Invalid color format. Use HEX (#RRGGBB), RGB (rgb(r,g,b)), or HSL (hsl(h,s%,l%))''"

definition hexToRgb :: "string \<Rightarrow> RGB" where
  "hexToRgb hex0 =
     (let hex1 = (if startsWith hex0 ''#'' then tl hex0 else hex0);
          hex2 = (if length hex1 = 3 then concat (map (\<lambda>c. [c, c]) hex1) else hex1)
      in \<lparr>rgb_r = parseInt (substring hex2 0 2) 16,
          rgb_g = parseInt (substring hex2 2 4) 16,
          rgb_b = parseInt (substring hex2 4 6) 16\<rparr>)"

definition toHex :: "jsnum \<Rightarrow> string" where
  "toHex n = (let hx = toString16 (Math_round n) in if length hx = 1 then ''0'' @ hx else hx)"

definition rgbToHex :: "RGB \<Rightarrow> string" where
  "rgbToHex c = toUpperCase (''#'' @ toHex (rgb_r c) @ toHex (rgb_g c) @ toHex (rgb_b c))"

definition rgbToHsl :: "RGB \<Rightarrow> HSL" where
  "rgbToHsl c =
     (let r = jdiv (rgb_r c) (num 255);
          g = jdiv (rgb_g c) (num 255);
          b = jdiv (rgb_b c) (num 255);
          mx = Math_max r g b;
          mn = Math_min r g b;
          diff = jsub mx mn;
          l = jdiv (jadd mx mn) (num 2);
          s = (if \<not> jeq diff (num 0)
               then (if jgt l (Fin (1 / 2)) then jdiv diff (jsub (jsub (num 2) mx) mn)
                     else jdiv diff (jadd mx mn))
               else num 0);
          h = (if \<not> jeq diff (num 0)
               then (if jeq mx r
                     then jdiv (jadd (jdiv (jsub g b) diff) (if jlt g b then num 6 else num 0))
                            (num 6)
                     else if jeq mx g then jdiv (jadd (jdiv (jsub b r) diff) (num 2)) (num 6)
                     else if jeq mx b then jdiv (jadd (jdiv (jsub r g) diff) (num 4)) (num 6)
                     else num 0)
               else num 0)
      in \<lparr>hsl_h = Math_round (jmul h (num 360)),
          hsl_s = Math_round (jmul s (num 100)),
          hsl_l = Math_round (jmul l (num 100))\<rparr>)"

definition hue2rgb :: "jsnum \<Rightarrow> jsnum \<Rightarrow> jsnum \<Rightarrow> jsnum" where
  "hue2rgb p q t0 =
     (let t1 = (if jlt t0 (num 0) then jadd t0 (num 1) else t0);
          t = (if jgt t1 (num 1) then jsub t1 (num 1) else t1)
      in if jlt t (jdiv (num 1) (num 6)) then jadd p (jmul (jmul (jsub q p) (num 6)) t)
         else if jlt t (jdiv (num 1) (num 2)) then q
         else if jlt t (jdiv (num 2) (num 3))
           then jadd p (jmul (jmul (jsub q p) (jsub (jdiv (num 2) (num 3)) t)) (num 6))
         else p)"

definition hslToRgb :: "HSL \<Rightarrow> RGB" where
  "hslToRgb c =
     (let h = jdiv (hsl_h c) (num 360);
          s = jdiv (hsl_s c) (num 100);
          l = jdiv (hsl_l c) (num 100)
      in if jeq s (num 0)
         then \<lparr>rgb_r = Math_round (jmul l (num 255)),
               rgb_g = Math_round (jmul l (num 255)),
               rgb_b = Math_round (jmul l (num 255))\<rparr>
         else
           (let q = (if jlt l (Fin (1 / 2)) then jmul l (jadd (num 1) s)
                     else jsub (jadd l s) (jmul l s));
                p = jsub (jmul (num 2) l) q
            in \<lparr>rgb_r = Math_round (jmul (hue2rgb p q (jadd h (jdiv (num 1) (num 3)))) (num 255)),
                rgb_g = Math_round (jmul (hue2rgb p q h) (num 255)),
                rgb_b = Math_round (jmul (hue2rgb p q (jsub h (jdiv (num 1) (num 3)))) (num 255))\<rparr>))"

lemma trim_hash: "\<exists>ys. trim (CHR ''#'' # t) = CHR ''#'' # ys"
proof -
  have "\<exists>zs. dropWhile is_ws (rev t @ ''#'') = zs @ ''#''"
    by (simp add: dropWhile_append is_ws_def)
  then obtain zs where "dropWhile is_ws (rev t @ ''#'') = zs @ ''#''" ..
  then show ?thesis
    by (simp add: trim_def is_ws_def)
qed

definition parse_hash :: "string \<Rightarrow> ColorInfo" where
  \<comment> \<open>the branch of \<open>parseColor\<close> for a text that starts with \<open>#\<close>\<close>
  "parse_hash color =
     \<lparr>hex = toUpperCase color, rgb = hexToRgb color, hsl = rgbToHsl (hexToRgb color),
      name = None\<rparr>"

function parseColor :: "string \<Rightarrow> error + ColorInfo" where
  "parseColor color0 =
     (let color = trim color0 in
      if startsWith color ''#'' then Inr (parse_hash color)
      else
        (case match color rgb_pattern of
           Some m \<Rightarrow>
             (let c = \<lparr>rgb_r = parseInt (m ! 0) 0, rgb_g = parseInt (m ! 1) 0,
                       rgb_b = parseInt (m ! 2) 0\<rparr>
              in Inr \<lparr>hex = rgbToHex c, rgb = c, hsl = rgbToHsl c, name = None\<rparr>)
         | None \<Rightarrow>
             (case match color hsl_pattern of
                Some m \<Rightarrow>
                  (let c = \<lparr>hsl_h = parseInt (m ! 0) 0, hsl_s = parseInt (m ! 1) 0,
                            hsl_l = parseInt (m ! 2) 0\<rparr>
                   in Inr \<lparr>hex = rgbToHex (hslToRgb c), rgb = hslToRgb c, hsl = c,
                           name = None\<rparr>)
              | None \<Rightarrow>
                  if is_hex6 color then parseColor (''#'' @ color) else Inl InvalidFormat)))"
  by pat_completeness auto
termination
proof (relation "measure (\<lambda>c. if startsWith (trim c) ''#'' then 0 else 1)")
  show "wf (measure (\<lambda>c. if startsWith (trim c) ''#'' then 0 else 1 :: nat))"
    by simp
next
  fix color0 color :: string
  assume "color = trim color0" and "\<not> startsWith color ''#''"
  moreover obtain ys where "trim (''#'' @ color) = CHR ''#'' # ys"
    using trim_hash [of color] by auto
  ultimately show "(''#'' @ color, color0)
      \<in> measure (\<lambda>c. if startsWith (trim c) ''#'' then 0 else 1)"
    by (simp add: startsWith_def)
qed

declare parseColor.simps [simp del]

subsection \<open>Palettes\<close>

definition fromHsl :: "HSL \<Rightarrow> ColorInfo" where
  \<comment> \<open>the three lines every palette function ends with:
      \<open>rgb = hslToRgb(hsl); hex = rgbToHex(rgb); { hex, rgb, hsl }\<close>\<close>
  "fromHsl c = \<lparr>hex = rgbToHex (hslToRgb c), rgb = hslToRgb c, hsl = c, name = None\<rparr>"

definition getComplementary :: "ColorInfo \<Rightarrow> ColorInfo" where
  "getComplementary color =
     fromHsl ((hsl color)\<lparr>hsl_h := jmod (jadd (hsl_h (hsl color)) (num 180)) (num 360)\<rparr>)"

definition getAnalogous :: "ColorInfo \<Rightarrow> ColorInfo list" where
  "getAnalogous color =
     map (\<lambda>angle. fromHsl ((hsl color)
            \<lparr>hsl_h := jmod (jadd (jadd (hsl_h (hsl color)) angle) (num 360)) (num 360)\<rparr>))
       [num (- 30), num 0, num 30]"

definition getTriadic :: "ColorInfo \<Rightarrow> ColorInfo list" where
  "getTriadic color =
     map (\<lambda>angle. fromHsl ((hsl color)
            \<lparr>hsl_h := jmod (jadd (hsl_h (hsl color)) angle) (num 360)\<rparr>))
       [num 0, num 120, num 240]"

definition getTetradic :: "ColorInfo \<Rightarrow> ColorInfo list" where
  "getTetradic color =
     map (\<lambda>angle. fromHsl ((hsl color)
            \<lparr>hsl_h := jmod (jadd (hsl_h (hsl color)) angle) (num 360)\<rparr>))
       [num 0, num 90, num 180, num 270]"

function mono_loop :: "ColorInfo \<Rightarrow> int \<Rightarrow> jsnum \<Rightarrow> int \<Rightarrow> ColorInfo list \<Rightarrow> ColorInfo list"
  where
  \<comment> \<open>\<open>for (let i = 0; i < count; i++) { ...; colors.push(...) }\<close>\<close>
  "mono_loop color count step i colors =
     (if i < count
      then mono_loop color count step (i + 1)
             (colors @ [fromHsl ((hsl color)
                \<lparr>hsl_l := Math_round (jadd (num 10) (jmul step (num i)))\<rparr>)])
      else colors)"
  by pat_completeness auto
termination
  by (relation "measure (\<lambda>(color, count, step, i, colors). nat (count - i))") auto

declare mono_loop.simps [simp del]

definition getMonochromatic :: "ColorInfo \<Rightarrow> int option \<Rightarrow> ColorInfo list" where
  \<comment> \<open>\<open>count\<close> is an integer (the callers validate it); \<open>None\<close> is a call without
      it, which takes the default 5\<close>
  "getMonochromatic color count_arg =
     (let count = (case count_arg of None \<Rightarrow> 5 | Some n \<Rightarrow> n);
          step = jdiv (num 80) (jsub (num count) (num 1))
      in mono_loop color count step 0 [])"

subsection \<open>Names\<close>

definition hueNames :: "(jsnum \<times> string) list" where
  "hueNames =
     [(num 15, ''Red''), (num 45, ''Orange''), (num 70, ''Yellow''), (num 150, ''Green''),
      (num 210, ''Cyan''), (num 250, ''Blue''), (num 290, ''Purple''),
      (num 330, ''Magenta''), (num 360, ''Red'')]"

definition getColorName :: "ColorInfo \<Rightarrow> string" where
  "getColorName color =
     (let h = hsl_h (hsl color); s = hsl_s (hsl color); l = hsl_l (hsl color) in
      if jlt s (num 10) then
        (if jlt l (num 20) then ''Black''
         else if jlt l (num 40) then ''Dark Gray''
         else if jlt l (num 60) then ''Gray''
         else if jlt l (num 80) then ''Light Gray''
         else ''White'')
      else
        (let hueName = (case find (\<lambda>rng. jle h (fst rng)) hueNames of
                          None \<Rightarrow> ''Red''
                        | Some rng \<Rightarrow> if snd rng = [] then ''Red'' else snd rng);
             prefix = (if jlt l (num 30) then ''Dark ''
                       else if jgt l (num 70) then ''Light ''
                       else if jlt s (num 40) then ''Pale ''
                       else if jgt s (num 80) then ''Vivid ''
                       else [])
         in prefix @ hueName))"

section \<open>The specification's naming rule\<close>

text \<open>
  The rule as the specification words it, to be compared with \<open>getColorName\<close>: the
  lightness bands of a near-achromatic colour, the nine hue bands with inclusive upper
  ends (anything past the last band falls back to Red), and the one prefix chosen by
  the first test that holds.
\<close>

definition spec_lightness_band :: "jsnum \<Rightarrow> string" where
  "spec_lightness_band l =
     (if jlt l (num 20) then ''Black'' else if jlt l (num 40) then ''Dark Gray''
      else if jlt l (num 60) then ''Gray'' else if jlt l (num 80) then ''Light Gray''
      else ''White'')"

definition spec_hue_band :: "jsnum \<Rightarrow> string" where
  "spec_hue_band h =
     (if jle h (num 15) then ''Red'' else if jle h (num 45) then ''Orange''
      else if jle h (num 70) then ''Yellow'' else if jle h (num 150) then ''Green''
      else if jle h (num 210) then ''Cyan'' else if jle h (num 250) then ''Blue''
      else if jle h (num 290) then ''Purple'' else if jle h (num 330) then ''Magenta''
      else ''Red'')"

definition spec_prefix :: "jsnum \<Rightarrow> jsnum \<Rightarrow> string" where
  "spec_prefix l s =
     (if jlt l (num 30) then ''Dark '' else if jgt l (num 70) then ''Light ''
      else if jlt s (num 40) then ''Pale '' else if jgt s (num 80) then ''Vivid ''
      else [])"

definition spec_name :: "HSL \<Rightarrow> string" where
  "spec_name c =
     (if jlt (hsl_s c) (num 10) then spec_lightness_band (hsl_l c)
      else spec_prefix (hsl_l c) (hsl_s c) @ spec_hue_band (hsl_h c))"

section \<open>Facts about the rounding\<close>

text \<open>
  The rounding \<open>fl\<close> is exact on every value with a significand below \<open>2 ^ 53\<close>
  (so on every integer up to \<open>2 ^ 53\<close>), it is monotone and odd, and rounding twice is
  rounding once.
\<close>

lemma p2_pos: "0 < (2::rat) powi a"
  by simp

lemma p2_less: "a < b \<Longrightarrow> (2::rat) powi a < 2 powi b"
  by (rule power_int_strict_increasing) simp_all

lemma p2_le: "a \<le> b \<Longrightarrow> (2::rat) powi a \<le> 2 powi b"
  by (rule power_int_increasing) simp_all

lemma p2_less_iff: "(2::rat) powi a < 2 powi b \<longleftrightarrow> a < b"
  using p2_less [of a b] p2_le [of b a] by (cases "a < b") simp_all

lemma p2_le_iff: "(2::rat) powi a \<le> 2 powi b \<longleftrightarrow> a \<le> b"
  using p2_less [of b a] p2_le [of a b] by (cases "a \<le> b") simp_all

lemma p2_add: "(2::rat) powi (a + b) = 2 powi a * 2 powi b"
  by (rule power_int_add) simp

lemma p2_diff: "(2::rat) powi (a - b) = 2 powi a / 2 powi b"
  by (rule power_int_diff) simp

lemma p2_of_int: "0 \<le> k \<Longrightarrow> (2::rat) powi k = of_int (2 ^ nat k)"
  by (simp add: power_int_def)

lemma bitlen_nonneg: "0 \<le> bitlen n"
  by (induction n rule: bitlen.induct) (subst bitlen.simps, simp)

lemma bitlen_pos: "0 < n \<Longrightarrow> 0 < bitlen n"
  using bitlen_nonneg [of "n div 2"] by (subst bitlen.simps) simp

lemma bitlen_bounds:
  "0 < n \<Longrightarrow> 2 powi (bitlen n - 1) \<le> (of_int n :: rat) \<and> (of_int n :: rat) < 2 powi bitlen n"
proof (induction n rule: bitlen.induct)
  case (1 n)
  show ?case
  proof (cases "n = 1")
    case True
    then show ?thesis
      by (simp add: bitlen.simps [of 1] bitlen.simps [of 0])
  next
    case False
    with "1.prems" have half: "0 < n div 2" by simp
    define k where "k = bitlen (n div 2)"
    have ih: "2 powi (k - 1) \<le> (of_int (n div 2) :: rat)" "(of_int (n div 2) :: rat) < 2 powi k"
      using "1.IH" "1.prems" half by (simp_all add: k_def)
    have bl: "bitlen n = k + 1"
      using "1.prems" by (subst bitlen.simps) (simp add: k_def)
    have p: "(2::rat) powi k = 2 powi (k - 1) * 2" "(2::rat) powi (k + 1) = 2 powi k * 2"
      using power_int_add_1 [of "2::rat" "k - 1"] power_int_add_1 [of "2::rat" k] by simp_all
    have "of_int (n div 2) + 1 \<le> (2::rat) powi k"
    proof -
      have "0 \<le> k" using bitlen_nonneg k_def by simp
      then have "(2::rat) powi k = of_int (2 ^ nat k)" by (simp add: power_int_def)
      moreover have "n div 2 < 2 ^ nat k"
        using ih(2) \<open>(2::rat) powi k = of_int (2 ^ nat k)\<close> by (simp only: of_int_less_iff)
      ultimately have "n div 2 + 1 \<le> 2 ^ nat k" by simp
      then have "(of_int (n div 2 + 1) :: rat) \<le> of_int (2 ^ nat k)"
        by (simp only: of_int_le_iff)
      then show ?thesis
        using \<open>(2::rat) powi k = of_int (2 ^ nat k)\<close> by simp
    qed
    moreover have "(of_int n :: rat) \<le> 2 * of_int (n div 2) + 1"
    proof -
      have "n \<le> 2 * (n div 2) + 1" by presburger
      then have "(of_int n :: rat) \<le> of_int (2 * (n div 2) + 1)"
        by (simp only: of_int_le_iff)
      then show ?thesis by simp
    qed
    moreover have "2 * (of_int (n div 2) :: rat) \<le> of_int n"
    proof -
      have "2 * (n div 2) \<le> n" by presburger
      then have "(of_int (2 * (n div 2)) :: rat) \<le> of_int n"
        by (simp only: of_int_le_iff)
      then show ?thesis by simp
    qed
    ultimately show ?thesis using ih(1) p by (simp add: bl)
  qed
qed

lemma ilog2_bounds:
  assumes "0 < x"
  shows "2 powi ilog2 x \<le> x" and "x < 2 powi (ilog2 x + 1)"
proof -
  have "2 powi ilog2 x \<le> x \<and> x < 2 powi (ilog2 x + 1)"
  proof (cases "1 \<le> x")
    case True
    then have n: "0 < \<lfloor>x\<rfloor>" by simp
    have "of_int \<lfloor>x\<rfloor> \<le> x" "x < of_int \<lfloor>x\<rfloor> + 1" by linarith+
    moreover have "of_int \<lfloor>x\<rfloor> + 1 \<le> (2::rat) powi bitlen \<lfloor>x\<rfloor>"
    proof -
      have "0 \<le> bitlen \<lfloor>x\<rfloor>" by (rule bitlen_nonneg)
      then have e: "(2::rat) powi bitlen \<lfloor>x\<rfloor> = of_int (2 ^ nat (bitlen \<lfloor>x\<rfloor>))"
        by (simp add: power_int_def)
      have "\<lfloor>x\<rfloor> < 2 ^ nat (bitlen \<lfloor>x\<rfloor>)"
        using bitlen_bounds [OF n] e by (simp only: of_int_less_iff)
      then have "\<lfloor>x\<rfloor> + 1 \<le> 2 ^ nat (bitlen \<lfloor>x\<rfloor>)" by simp
      then have "(of_int (\<lfloor>x\<rfloor> + 1) :: rat) \<le> of_int (2 ^ nat (bitlen \<lfloor>x\<rfloor>))"
        by (simp only: of_int_le_iff)
      then show ?thesis unfolding e by simp
    qed
    ultimately have "2 powi (bitlen \<lfloor>x\<rfloor> - 1) \<le> x" "x < 2 powi bitlen \<lfloor>x\<rfloor>"
      using bitlen_bounds [OF n] by linarith+
    then show ?thesis
      using True by (simp add: ilog2_def)
  next
    case False
    define c where "c = \<lceil>1 / x\<rceil>"
    from False assms have y: "1 < 1 / x" by simp
    then have c2: "2 \<le> c" unfolding c_def by linarith
    then have m: "0 < c - 1" by simp
    define k where "k = bitlen (c - 1)"
    have b: "2 powi (k - 1) \<le> (of_int (c - 1) :: rat)" "(of_int (c - 1) :: rat) < 2 powi k"
      using bitlen_bounds [OF m] by (simp_all add: k_def)
    have "0 \<le> k" using bitlen_nonneg k_def by simp
    then have e: "(2::rat) powi k = of_int (2 ^ nat k)" by (simp add: power_int_def)
    have "c - 1 < 2 ^ nat k" using b(2) unfolding e by (simp only: of_int_less_iff)
    then have "c \<le> 2 ^ nat k" by simp
    then have "(of_int c :: rat) \<le> 2 powi k" unfolding e by (simp only: of_int_le_iff)
    moreover have "1 / x \<le> of_int c" unfolding c_def by linarith
    ultimately have up: "1 / x \<le> 2 powi k" by simp
    have "of_int c - 1 < 1 / x" unfolding c_def by linarith
    then have lo: "2 powi (k - 1) < 1 / x" using b(1) by simp
    have "2 powi (- k) \<le> x"
    proof -
      have "1 \<le> 2 powi k * x" using up assms by (simp add: pos_divide_le_eq)
      then have "1 / 2 powi k \<le> x" by (simp add: pos_divide_le_eq mult.commute)
      then show ?thesis by (simp only: power_int_minus_divide)
    qed
    moreover have "x < 2 powi (- k + 1)"
    proof -
      have "2 powi (k - 1) * x < 1" using lo assms by (simp add: pos_less_divide_eq)
      then have "x < 1 / 2 powi (k - 1)" by (simp add: pos_less_divide_eq mult.commute)
      moreover have "(2::rat) powi (- k + 1) = 1 / 2 powi (k - 1)"
        using power_int_minus_divide [of "2::rat" "k - 1"] by simp
      ultimately show ?thesis by simp
    qed
    ultimately show ?thesis using False by (simp add: ilog2_def c_def k_def)
  qed
  then show "2 powi ilog2 x \<le> x" and "x < 2 powi (ilog2 x + 1)" by simp_all
qed

lemma ilog2_unique:
  assumes "0 < x" "2 powi k \<le> x" "x < 2 powi (k + 1)"
  shows "ilog2 x = k"
proof (rule antisym)
  have "(2::rat) powi ilog2 x < 2 powi (k + 1)"
    using ilog2_bounds(1) [OF assms(1)] assms(3) by (rule le_less_trans)
  then have "ilog2 x < k + 1" by (simp only: p2_less_iff)
  then show "ilog2 x \<le> k" by simp
  have "(2::rat) powi k < 2 powi (ilog2 x + 1)"
    using assms(2) ilog2_bounds(2) [OF assms(1)] by (rule le_less_trans)
  then have "k < ilog2 x + 1" by (simp only: p2_less_iff)
  then show "k \<le> ilog2 x" by simp
qed

lemma ilog2_mono:
  assumes "0 < x" "x \<le> y"
  shows "ilog2 x \<le> ilog2 y"
proof -
  have "0 < y" using assms by simp
  have "(2::rat) powi ilog2 x < 2 powi (ilog2 y + 1)"
    using ilog2_bounds(1) [OF assms(1)] assms(2) ilog2_bounds(2) [OF \<open>0 < y\<close>] by linarith
  then have "ilog2 x < ilog2 y + 1" by (simp only: p2_less_iff)
  then show ?thesis by simp
qed

lemma round_even_of_int: "round_even (of_int k) = k"
  by (simp add: round_even_def)

lemma round_even_range: "round_even x = \<lfloor>x\<rfloor> \<or> round_even x = \<lfloor>x\<rfloor> + 1"
  by (simp add: round_even_def Let_def)

lemma round_even_mono:
  assumes "x \<le> y"
  shows "round_even x \<le> round_even y"
proof (cases "\<lfloor>x\<rfloor> = \<lfloor>y\<rfloor>")
  case True
  have "x - of_int \<lfloor>x\<rfloor> \<le> y - of_int \<lfloor>y\<rfloor>" using assms True by simp
  then show ?thesis
    using True by (auto simp: round_even_def Let_def)
next
  case False
  then have "\<lfloor>x\<rfloor> + 1 \<le> \<lfloor>y\<rfloor>" using floor_mono [OF assms] by linarith
  then show ?thesis
    using round_even_range [of x] round_even_range [of y] by linarith
qed

lemma round_even_minus: "round_even (- x) = - round_even x"
proof (cases "x = of_int \<lfloor>x\<rfloor>")
  case True
  then have "round_even (- x) = round_even (of_int (- \<lfloor>x\<rfloor>))" by simp
  also have "\<dots> = - round_even (of_int \<lfloor>x\<rfloor>)" by (simp only: round_even_of_int)
  finally show ?thesis using True by simp
next
  case False
  then have "of_int \<lfloor>x\<rfloor> < x" by linarith
  then have f: "\<lfloor>- x\<rfloor> = - \<lfloor>x\<rfloor> - 1" by linarith
  show ?thesis
    unfolding round_even_def Let_def f by (auto simp: algebra_simps)
qed

lemma ulp_exp_minus: "ulp_exp (- x) = ulp_exp x"
  by (simp add: ulp_exp_def)

lemma fl_minus: "fl (- x) = - fl x"
  by (simp add: fl_def ulp_exp_minus round_even_minus)

lemma fl_0: "fl 0 = 0"
  by (simp add: fl_def)

lemma ulp_exp_ge: "- 1074 \<le> ulp_exp x"
  by (simp add: ulp_exp_def)

lemma ulp_exp_le:
  assumes "x \<noteq> 0" "\<bar>x\<bar> < 2 powi (e + 53)" "- 1074 \<le> e"
  shows "ulp_exp x \<le> e"
proof -
  have "(2::rat) powi ilog2 \<bar>x\<bar> < 2 powi (e + 53)"
    using ilog2_bounds(1) [of "\<bar>x\<bar>"] assms(1,2) by simp
  then have "ilog2 \<bar>x\<bar> < e + 53" by (simp only: p2_less_iff)
  then show ?thesis using assms(3) by (simp add: ulp_exp_def)
qed

lemma fl_exact_scaled:
  assumes "x \<noteq> 0" "ulp_exp x \<le> e" "x = of_int m * 2 powi e"
  shows "fl x = x"
proof -
  define E where "E = ulp_exp x"
  have "x / 2 powi E = of_int m * 2 powi (e - E)"
    by (simp add: assms(3) p2_diff)
  also have "\<dots> = of_int (m * 2 ^ nat (e - E))"
    using assms(2) by (simp add: p2_of_int E_def)
  finally have "round_even (x / 2 powi E) = m * 2 ^ nat (e - E)"
    by (simp only: round_even_of_int)
  then have "fl x = of_int (m * 2 ^ nat (e - E)) * 2 powi E"
    using assms(1) by (simp add: fl_def E_def)
  also have "\<dots> = of_int m * (2 powi (e - E) * 2 powi E)"
    using assms(2) by (simp add: p2_of_int E_def)
  also have "\<dots> = of_int m * 2 powi e"
    by (simp add: p2_diff)
  finally show ?thesis using assms(3) by simp
qed

lemma fl_representable:
  assumes "\<bar>m\<bar> < 2 ^ 53" "- 1074 \<le> e"
  shows "fl (of_int m * 2 powi e) = of_int m * 2 powi e"
proof (cases "m = 0")
  case True
  then show ?thesis by (simp add: fl_0)
next
  case False
  define x :: rat where "x = of_int m * 2 powi e"
  have nz: "x \<noteq> 0" using False by (simp add: x_def)
  have "(of_int \<bar>m\<bar> :: rat) < of_int (2 ^ 53)"
    using assms(1) by (simp only: of_int_less_iff)
  then have "\<bar>of_int m :: rat\<bar> < 2 powi 53" by simp
  then have "\<bar>x\<bar> < 2 powi 53 * 2 powi e"
    by (simp add: x_def abs_mult)
  then have "\<bar>x\<bar> < 2 powi (e + 53)"
    by (simp add: p2_add mult.commute)
  with nz have "ulp_exp x \<le> e" using assms(2) by (rule ulp_exp_le)
  then show ?thesis
    using fl_exact_scaled [OF nz _ x_def] by (simp add: x_def)
qed

lemma fl_of_int:
  assumes "\<bar>n\<bar> \<le> 2 ^ 53"
  shows "fl (of_int n) = of_int n"
proof (cases "\<bar>n\<bar> < 2 ^ 53")
  case True
  then show ?thesis using fl_representable [of n 0] by simp
next
  case False
  then have "n = 2 ^ 52 * 2 \<or> n = - (2 ^ 52) * 2" using assms by auto
  then show ?thesis
    using fl_representable [of "2 ^ 52" 1] fl_representable [of "- (2 ^ 52)" 1] by auto
qed

lemma fl_nonneg: "0 \<le> x \<Longrightarrow> 0 \<le> fl x"
  using round_even_mono [of 0 "x / 2 powi ulp_exp x"] round_even_of_int [of 0]
  by (simp add: fl_def)

lemma ulp_exp_pos:
  assumes "0 < x"
  shows "x < 2 powi (ulp_exp x + 53)"
proof -
  have "ilog2 x + 1 \<le> ulp_exp x + 53" using assms by (simp add: ulp_exp_def)
  then have "(2::rat) powi (ilog2 x + 1) \<le> 2 powi (ulp_exp x + 53)" by (rule p2_le)
  then show ?thesis using ilog2_bounds(2) [OF assms] by linarith
qed

lemma fl_pos_eq:
  "0 < x \<Longrightarrow> fl x = of_int (round_even (x / 2 powi ulp_exp x)) * 2 powi ulp_exp x"
  by (simp add: fl_def)

lemma fl_upper:
  assumes "0 < x"
  shows "fl x \<le> 2 powi (ulp_exp x + 53)"
proof -
  define E where "E = ulp_exp x"
  have "x / 2 powi E < 2 powi (E + 53) / 2 powi E"
    using ulp_exp_pos [OF assms] by (simp add: E_def divide_strict_right_mono)
  also have "\<dots> = of_int (2 ^ 53)" by (simp add: p2_add)
  finally have "round_even (x / 2 powi E) \<le> round_even (of_int (2 ^ 53))"
    by (intro round_even_mono) simp
  then have "round_even (x / 2 powi E) \<le> 2 ^ 53" by (simp only: round_even_of_int)
  then have "(of_int (round_even (x / 2 powi E)) :: rat) \<le> of_int (2 ^ 53)"
    by (simp only: of_int_le_iff)
  then have "of_int (round_even (x / 2 powi E)) * 2 powi E \<le> of_int (2 ^ 53) * (2::rat) powi E"
    by (intro mult_right_mono) simp_all
  also have "of_int (2 ^ 53) * (2::rat) powi E = 2 powi (E + 53)" by (simp add: p2_add)
  finally have "of_int (round_even (x / 2 powi E)) * 2 powi E \<le> (2::rat) powi (E + 53)" .
  moreover have "fl x = of_int (round_even (x / 2 powi E)) * 2 powi E"
    unfolding E_def by (rule fl_pos_eq [OF assms])
  ultimately show ?thesis unfolding E_def by linarith
qed

lemma fl_lower:
  assumes "0 < x" "- 1022 \<le> ilog2 x"
  shows "2 powi ilog2 x \<le> fl x"
proof -
  define E where "E = ulp_exp x"
  have E: "ilog2 x = E + 52" using assms by (simp add: E_def ulp_exp_def)
  have "2 powi (E + 52) / 2 powi E \<le> x / 2 powi E"
    using ilog2_bounds(1) [OF assms(1)] by (simp add: E divide_right_mono)
  moreover have "2 powi (E + 52) / 2 powi E = (of_int (2 ^ 52) :: rat)" by (simp add: p2_add)
  ultimately have "round_even (of_int (2 ^ 52)) \<le> round_even (x / 2 powi E)"
    by (intro round_even_mono) simp
  then have "2 ^ 52 \<le> round_even (x / 2 powi E)" by (simp only: round_even_of_int)
  then have "(of_int (2 ^ 52) :: rat) \<le> of_int (round_even (x / 2 powi E))"
    by (simp only: of_int_le_iff)
  then have "of_int (2 ^ 52) * (2::rat) powi E \<le> of_int (round_even (x / 2 powi E)) * 2 powi E"
    by (intro mult_right_mono) simp_all
  moreover have "of_int (2 ^ 52) * (2::rat) powi E = 2 powi (E + 52)" by (simp add: p2_add)
  moreover have "fl x = of_int (round_even (x / 2 powi E)) * 2 powi E"
    unfolding E_def by (rule fl_pos_eq [OF assms(1)])
  ultimately show ?thesis unfolding E by linarith
qed

lemma fl_mono_pos:
  assumes "0 < x" "x \<le> y"
  shows "fl x \<le> fl y"
proof -
  have ypos: "0 < y" using assms by simp
  have le: "ulp_exp x \<le> ulp_exp y"
    using ilog2_mono [OF assms] assms ypos by (simp add: ulp_exp_def)
  show ?thesis
  proof (cases "ulp_exp x = ulp_exp y")
    case True
    have "x / 2 powi ulp_exp y \<le> y / 2 powi ulp_exp y"
      using assms(2) by (simp add: divide_right_mono)
    then have "round_even (x / 2 powi ulp_exp y) \<le> round_even (y / 2 powi ulp_exp y)"
      by (rule round_even_mono)
    then have "(of_int (round_even (x / 2 powi ulp_exp y)) :: rat)
        \<le> of_int (round_even (y / 2 powi ulp_exp y))"
      by (simp only: of_int_le_iff)
    then have "of_int (round_even (x / 2 powi ulp_exp y)) * (2::rat) powi ulp_exp y
        \<le> of_int (round_even (y / 2 powi ulp_exp y)) * 2 powi ulp_exp y"
      by (intro mult_right_mono) simp_all
    then show ?thesis using assms ypos True by (simp add: fl_pos_eq)
  next
    case False
    with le have lt: "ulp_exp x < ulp_exp y" by simp
    then have y: "- 1022 \<le> ilog2 y" "ulp_exp y = ilog2 y - 52"
      using ypos by (auto simp: ulp_exp_def max_def split: if_splits)
    have "fl x \<le> 2 powi (ulp_exp x + 53)" by (rule fl_upper [OF assms(1)])
    also have "\<dots> \<le> 2 powi ilog2 y" using lt y(2) by (intro p2_le) simp
    also have "\<dots> \<le> fl y" by (rule fl_lower [OF ypos y(1)])
    finally show ?thesis .
  qed
qed

lemma fl_mono:
  assumes "x \<le> y"
  shows "fl x \<le> fl y"
proof -
  consider "0 < x" | "x \<le> 0" "0 \<le> y" | "y < 0" by linarith
  then show ?thesis
  proof cases
    case 1
    then show ?thesis using assms by (rule fl_mono_pos)
  next
    case 2
    then have "fl x \<le> 0" "0 \<le> fl y"
      using fl_nonneg [of "- x"] fl_nonneg [of y] by (simp_all add: fl_minus)
    then show ?thesis by simp
  next
    case 3
    then have "fl (- y) \<le> fl (- x)" using assms by (intro fl_mono_pos) simp_all
    then show ?thesis by (simp add: fl_minus)
  qed
qed

lemma fl_form:
  assumes "x \<noteq> 0"
  shows "\<exists>n. fl x = of_int n * 2 powi ulp_exp x \<and> \<bar>n\<bar> \<le> 2 ^ 53"
proof -
  have pos: "\<exists>n. fl x = of_int n * 2 powi ulp_exp x \<and> \<bar>n\<bar> \<le> 2 ^ 53" if "0 < x" for x
  proof -
    define n where "n = round_even (x / 2 powi ulp_exp x)"
    have "fl x = of_int n * 2 powi ulp_exp x" using that by (simp add: fl_pos_eq n_def)
    moreover have "0 \<le> n"
      using round_even_mono [of 0 "x / 2 powi ulp_exp x"] round_even_of_int [of 0] that
      by (simp add: n_def)
    moreover have "n \<le> 2 ^ 53"
    proof -
      have "of_int n * 2 powi ulp_exp x \<le> of_int (2 ^ 53) * (2::rat) powi ulp_exp x"
        using fl_upper [OF that] \<open>fl x = of_int n * 2 powi ulp_exp x\<close> by (simp add: p2_add)
      then have "(of_int n :: rat) \<le> of_int (2 ^ 53)"
        by (simp only: mult_le_cancel_right_pos [OF p2_pos])
      then show ?thesis by (simp only: of_int_le_iff)
    qed
    ultimately show ?thesis by auto
  qed
  show ?thesis
  proof (cases "0 < x")
    case True
    then show ?thesis by (rule pos)
  next
    case False
    then have "0 < - x" using assms by simp
    from pos [OF this] obtain n where "fl (- x) = of_int n * 2 powi ulp_exp (- x)" "\<bar>n\<bar> \<le> 2 ^ 53"
      by blast
    then have "fl x = of_int (- n) * 2 powi ulp_exp x \<and> \<bar>- n\<bar> \<le> 2 ^ 53"
      by (simp add: fl_minus ulp_exp_minus)
    then show ?thesis by blast
  qed
qed

lemma fl_idem: "fl (fl x) = fl x"
proof (cases "x = 0")
  case True
  then show ?thesis by (simp add: fl_0)
next
  case False
  from fl_form [OF this] obtain n where n: "fl x = of_int n * 2 powi ulp_exp x" "\<bar>n\<bar> \<le> 2 ^ 53"
    by blast
  show ?thesis
  proof (cases "\<bar>n\<bar> < 2 ^ 53")
    case True
    then show ?thesis using fl_representable [OF True ulp_exp_ge [of x]] by (simp add: n(1))
  next
    case False
    with n(2) have "n = 2 ^ 52 * 2 \<or> n = - (2 ^ 52) * 2" by auto
    then have "fl x = of_int (2 ^ 52) * 2 powi (ulp_exp x + 1)
        \<or> fl x = of_int (- (2 ^ 52)) * 2 powi (ulp_exp x + 1)"
      by (auto simp: n(1) p2_add)
    moreover have "- 1074 \<le> ulp_exp x + 1" using ulp_exp_ge [of x] by simp
    ultimately show ?thesis
      using fl_representable [of "2 ^ 52" "ulp_exp x + 1"]
        fl_representable [of "- (2 ^ 52)" "ulp_exp x + 1"]
      by auto
  qed
qed

lemma rnd_Fin:
  assumes "\<bar>x\<bar> \<le> 2 ^ 64"
  shows "rnd x = Fin (fl x)"
proof (cases "fl x = 0")
  case True
  then show ?thesis by (simp add: rnd_def)
next
  case False
  have r: "fl 18446744073709551616 = 18446744073709551616"
    using fl_representable [of 1 64] by simp
  have "fl x \<le> fl (2 ^ 64)" "fl (- (2 ^ 64)) \<le> fl x"
    using assms by (auto intro!: fl_mono)
  then have "\<bar>fl x\<bar> \<le> 2 powi 64" by (simp add: r fl_minus)
  also have "\<dots> < (2::rat) powi 1024" by (rule p2_less) simp
  finally have "(2::rat) powi ilog2 \<bar>fl x\<bar> < 2 powi 1024"
    using ilog2_bounds(1) [of "\<bar>fl x\<bar>"] False by simp
  then have "ilog2 \<bar>fl x\<bar> < 1024" by (simp only: p2_less_iff)
  then show ?thesis using False by (simp add: rnd_def Let_def)
qed

section \<open>Evaluation\<close>

text \<open>Rewrite rules that let the simplifier run the functions on literals.\<close>

lemma floor_rat_numeral_div [simp]:
  "\<lfloor>numeral a / numeral b :: rat\<rfloor> = numeral a div numeral b"
  "\<lfloor>- (numeral a / numeral b) :: rat\<rfloor> = - numeral a div numeral b"
  "\<lfloor>1 / numeral b :: rat\<rfloor> = 1 div numeral b"
  "\<lfloor>- (1 / numeral b) :: rat\<rfloor> = - 1 div numeral b"
  using floor_divide_of_int_eq [of "numeral a" "numeral b", where ?'a = rat]
        floor_divide_of_int_eq [of "- numeral a" "numeral b", where ?'a = rat]
        floor_divide_of_int_eq [of "1" "numeral b", where ?'a = rat]
        floor_divide_of_int_eq [of "- 1" "numeral b", where ?'a = rat]
  by simp_all

lemma bitlen_eval [simp]:
  "bitlen 0 = 0" "bitlen 1 = 1" "bitlen (numeral k) = 1 + bitlen (numeral k div 2)"
  by (simp_all add: bitlen.simps [of 0] bitlen.simps [of 1] bitlen.simps [of "numeral k"])

lemma hex_digits_eval [simp]:
  "hex_digits 0 = [hex_char 0]"
  "hex_digits 1 = [hex_char 1]"
  "hex_digits (numeral k) =
     (if numeral k < (16::int) then [hex_char (numeral k)]
      else hex_digits (numeral k div 16) @ [hex_char (numeral k mod 16)])"
  by (simp_all add: hex_digits.simps [of 0] hex_digits.simps [of 1]
        hex_digits.simps [of "numeral k"])

lemmas num_eval = rnd_def fl_def ulp_exp_def ilog2_def round_even_def Let_def ceiling_def
  jsub_def jgt_def jeq_def jle_def Math_max_def Math_min_def Math_max2_def Math_min2_def
  inf_of_sign_def

lemma upper_char_ascii:
  "upper_char (CHR '' '') = CHR '' ''" "upper_char (CHR ''!'') = CHR ''!''"
  "upper_char (CHR 0x22) = CHR 0x22" "upper_char (CHR ''#'') = CHR ''#''"
  "upper_char (CHR ''$'') = CHR ''$''" "upper_char (CHR ''%'') = CHR ''%''"
  "upper_char (CHR ''&'') = CHR ''&''" "upper_char (CHR 0x27) = CHR 0x27"
  "upper_char (CHR ''('') = CHR ''(''" "upper_char (CHR '')'') = CHR '')''"
  "upper_char (CHR ''*'') = CHR ''*''" "upper_char (CHR ''+'') = CHR ''+''"
  "upper_char (CHR '','') = CHR '',''" "upper_char (CHR ''-'') = CHR ''-''"
  "upper_char (CHR ''.'') = CHR ''.''" "upper_char (CHR ''/'') = CHR ''/''"
  "upper_char (CHR ''0'') = CHR ''0''" "upper_char (CHR ''1'') = CHR ''1''"
  "upper_char (CHR ''2'') = CHR ''2''" "upper_char (CHR ''3'') = CHR ''3''"
  "upper_char (CHR ''4'') = CHR ''4''" "upper_char (CHR ''5'') = CHR ''5''"
  "upper_char (CHR ''6'') = CHR ''6''" "upper_char (CHR ''7'') = CHR ''7''"
  "upper_char (CHR ''8'') = CHR ''8''" "upper_char (CHR ''9'') = CHR ''9''"
  "upper_char (CHR '':'') = CHR '':''" "upper_char (CHR '';'') = CHR '';''"
  "upper_char (CHR ''<'') = CHR ''<''" "upper_char (CHR ''='') = CHR ''=''"
  "upper_char (CHR ''>'') = CHR ''>''" "upper_char (CHR ''?'') = CHR ''?''"
  "upper_char (CHR ''@'') = CHR ''@''" "upper_char (CHR ''A'') = CHR ''A''"
  "upper_char (CHR ''B'') = CHR ''B''" "upper_char (CHR ''C'') = CHR ''C''"
  "upper_char (CHR ''D'') = CHR ''D''" "upper_char (CHR ''E'') = CHR ''E''"
  "upper_char (CHR ''F'') = CHR ''F''" "upper_char (CHR ''G'') = CHR ''G''"
  "upper_char (CHR ''H'') = CHR ''H''" "upper_char (CHR ''I'') = CHR ''I''"
  "upper_char (CHR ''J'') = CHR ''J''" "upper_char (CHR ''K'') = CHR ''K''"
  "upper_char (CHR ''L'') = CHR ''L''" "upper_char (CHR ''M'') = CHR ''M''"
  "upper_char (CHR ''N'') = CHR ''N''" "upper_char (CHR ''O'') = CHR ''O''"
  "upper_char (CHR ''P'') = CHR ''P''" "upper_char (CHR ''Q'') = CHR ''Q''"
  "upper_char (CHR ''R'') = CHR ''R''" "upper_char (CHR ''S'') = CHR ''S''"
  "upper_char (CHR ''T'') = CHR ''T''" "upper_char (CHR ''U'') = CHR ''U''"
  "upper_char (CHR ''V'') = CHR ''V''" "upper_char (CHR ''W'') = CHR ''W''"
  "upper_char (CHR ''X'') = CHR ''X''" "upper_char (CHR ''Y'') = CHR ''Y''"
  "upper_char (CHR ''Z'') = CHR ''Z''" "upper_char (CHR ''['') = CHR ''[''"
  "upper_char (CHR 0x5C) = CHR 0x5C" "upper_char (CHR '']'') = CHR '']''"
  "upper_char (CHR ''^'') = CHR ''^''" "upper_char (CHR ''_'') = CHR ''_''"
  "upper_char (CHR ''`'') = CHR ''`''" "upper_char (CHR ''a'') = CHR ''A''"
  "upper_char (CHR ''b'') = CHR ''B''" "upper_char (CHR ''c'') = CHR ''C''"
  "upper_char (CHR ''d'') = CHR ''D''" "upper_char (CHR ''e'') = CHR ''E''"
  "upper_char (CHR ''f'') = CHR ''F''" "upper_char (CHR ''g'') = CHR ''G''"
  "upper_char (CHR ''h'') = CHR ''H''" "upper_char (CHR ''i'') = CHR ''I''"
  "upper_char (CHR ''j'') = CHR ''J''" "upper_char (CHR ''k'') = CHR ''K''"
  "upper_char (CHR ''l'') = CHR ''L''" "upper_char (CHR ''m'') = CHR ''M''"
  "upper_char (CHR ''n'') = CHR ''N''" "upper_char (CHR ''o'') = CHR ''O''"
  "upper_char (CHR ''p'') = CHR ''P''" "upper_char (CHR ''q'') = CHR ''Q''"
  "upper_char (CHR ''r'') = CHR ''R''" "upper_char (CHR ''s'') = CHR ''S''"
  "upper_char (CHR ''t'') = CHR ''T''" "upper_char (CHR ''u'') = CHR ''U''"
  "upper_char (CHR ''v'') = CHR ''V''" "upper_char (CHR ''w'') = CHR ''W''"
  "upper_char (CHR ''x'') = CHR ''X''" "upper_char (CHR ''y'') = CHR ''Y''"
  "upper_char (CHR ''z'') = CHR ''Z''" "upper_char (CHR ''{'') = CHR ''{''"
  "upper_char (CHR ''|'') = CHR ''|''" "upper_char (CHR ''}'') = CHR ''}''"
  "upper_char (CHR ''~'') = CHR ''~''"
  by (simp_all add: upper_char_def)

lemmas str_eval = is_ws_def is_digit_def upper_char_ascii toUpperCase_def trim_def
  startsWith_def substring_def digit_val_def is_radix_digit_def parseInt_def hex_char_def
  rgb_pattern_def hsl_pattern_def is_hex6_def toHex_def

section \<open>Parsing the four spellings of pure red\<close>

definition pure_red :: ColorInfo where
  "pure_red =
     \<lparr>hex = ''#FF0000'',
      rgb = \<lparr>rgb_r = num 255, rgb_g = num 0, rgb_b = num 0\<rparr>,
      hsl = \<lparr>hsl_h = num 0, hsl_s = num 100, hsl_l = num 50\<rparr>,
      name = None\<rparr>"

lemma hexToRgb_red:
  "hexToRgb ''#FF0000'' = \<lparr>rgb_r = Fin 255, rgb_g = Fin 0, rgb_b = Fin 0\<rparr>"
  by (simp add: hexToRgb_def str_eval num_eval cong: let_weak_cong)

lemma rgbToHsl_red:
  "rgbToHsl \<lparr>rgb_r = Fin 255, rgb_g = Fin 0, rgb_b = Fin 0\<rparr>
     = \<lparr>hsl_h = Fin 0, hsl_s = Fin 100, hsl_l = Fin 50\<rparr>"
  by (simp add: rgbToHsl_def num_eval cong: let_weak_cong)

lemma hslToRgb_red:
  "hslToRgb \<lparr>hsl_h = Fin 0, hsl_s = Fin 100, hsl_l = Fin 50\<rparr>
     = \<lparr>rgb_r = Fin 255, rgb_g = Fin 0, rgb_b = Fin 0\<rparr>"
  by (simp add: hslToRgb_def hue2rgb_def num_eval cong: let_weak_cong)

lemma rgbToHex_red:
  "rgbToHex \<lparr>rgb_r = Fin 255, rgb_g = Fin 0, rgb_b = Fin 0\<rparr> = ''#FF0000''"
  by (simp add: rgbToHex_def str_eval cong: let_weak_cong)

lemma parseColor_hash_red: "parseColor ''#FF0000'' = Inr pure_red"
  by (simp add: parseColor.simps parse_hash_def pure_red_def hexToRgb_red rgbToHsl_red
        str_eval cong: let_weak_cong)

lemma parseColor_bare_red: "parseColor ''FF0000'' = Inr pure_red"
  by (simp add: parseColor.simps [of "''FF0000''"] parseColor_hash_red str_eval
        cong: let_weak_cong)

lemma parseColor_rgb_red: "parseColor ''rgb(255, 0, 0)'' = Inr pure_red"
  by (simp add: parseColor.simps pure_red_def rgbToHsl_red rgbToHex_red str_eval num_eval
        cong: let_weak_cong)

lemma parseColor_hsl_red: "parseColor ''hsl(0, 100%, 50%)'' = Inr pure_red"
  by (simp add: parseColor.simps pure_red_def hslToRgb_red rgbToHex_red str_eval num_eval
        cong: let_weak_cong)

text \<open>
  C1. \<open>parseColor\<close> succeeds on \<open>#FF0000\<close>, \<open>FF0000\<close>, \<open>rgb(255, 0, 0)\<close> and
  \<open>hsl(0, 100%, 50%)\<close>, and returns the same colour each time: hex \<open>#FF0000\<close>,
  rgb (255, 0, 0), hsl (0, 100, 50).
\<close>

theorem parseColor_red_four_ways:
  "parseColor ''#FF0000'' = Inr pure_red
   \<and> parseColor ''FF0000'' = Inr pure_red
   \<and> parseColor ''rgb(255, 0, 0)'' = Inr pure_red
   \<and> parseColor ''hsl(0, 100%, 50%)'' = Inr pure_red
   \<and> hex pure_red = ''#FF0000''
   \<and> rgb pure_red = \<lparr>rgb_r = num 255, rgb_g = num 0, rgb_b = num 0\<rparr>
   \<and> hsl pure_red = \<lparr>hsl_h = num 0, hsl_s = num 100, hsl_l = num 50\<rparr>"
  using parseColor_hash_red parseColor_bare_red parseColor_rgb_red parseColor_hsl_red
  by (simp add: pure_red_def)

section \<open>Naming\<close>

text \<open>
  C8. \<open>getColorName\<close> follows the specification's rule on every colour: with
  saturation below 10 the bare lightness band (Black, Dark Gray, Gray, Light Gray, White),
  otherwise the hue band behind the one prefix that the first matching test selects
  (lightness below 30 Dark, above 70 Light, saturation below 40 Pale, above 80 Vivid,
  else none). hsl(0, 0, 50) is named Gray and hsl(0, 100, 50) Vivid Red.
\<close>

theorem getColorName_refines_spec:
  "getColorName c = spec_name (hsl c)
   \<and> getColorName (fromHsl \<lparr>hsl_h = num 0, hsl_s = num 0, hsl_l = num 50\<rparr>) = ''Gray''
   \<and> getColorName pure_red = ''Vivid Red''"
  by (simp add: getColorName_def spec_name_def spec_lightness_band_def spec_hue_band_def
        spec_prefix_def hueNames_def Let_def fromHsl_def pure_red_def jle_def jgt_def jeq_def)

section \<open>Palette hues\<close>

definition int_between :: "int \<Rightarrow> int \<Rightarrow> jsnum \<Rightarrow> bool" where
  "int_between lo hi x =
     (case x of Fin q \<Rightarrow> of_int \<lfloor>q\<rfloor> = q \<and> of_int lo \<le> q \<and> q \<le> of_int hi | _ \<Rightarrow> False)"

lemma int_between_num: "int_between lo hi (num j) \<longleftrightarrow> lo \<le> j \<and> j \<le> hi"
  by (simp add: int_between_def)

lemma rnd_of_int: "\<bar>n\<bar> \<le> 2 ^ 53 \<Longrightarrow> rnd (of_int n) = num n"
proof -
  assume a: "\<bar>n\<bar> \<le> 2 ^ 53"
  then have "\<bar>n\<bar> \<le> 2 ^ 64" by simp
  then have "(of_int \<bar>n\<bar> :: rat) \<le> of_int (2 ^ 64)" by (simp only: of_int_le_iff)
  then have "\<bar>of_int n :: rat\<bar> \<le> 2 ^ 64" by simp
  then show ?thesis using fl_of_int [OF a] by (simp add: rnd_Fin)
qed

lemma jadd_num: "\<bar>a + b\<bar> \<le> 2 ^ 53 \<Longrightarrow> jadd (num a) (num b) = num (a + b)"
  using rnd_of_int [of "a + b"] by simp

lemma jmod_num:
  assumes "0 \<le> a" "0 < b"
  shows "jmod (num a) (num b) = num (a mod b)"
proof -
  have "(0::rat) \<le> of_int a / of_int b" using assms by simp
  moreover have "\<lfloor>(of_int a :: rat) / of_int b\<rfloor> = a div b" by (rule floor_divide_of_int_eq)
  moreover have "a - b * (a div b) = a mod b" by (simp add: minus_mult_div_eq_mod)
  then have "(of_int a :: rat) - of_int b * of_int (a div b) = of_int (a mod b)"
    by (metis of_int_diff of_int_mult)
  ultimately show ?thesis using assms by simp
qed

lemma hue_shift:
  assumes "0 \<le> k" "k < 360" "0 \<le> d" "d < 360"
  shows "jmod (jadd (num k) (num d)) (num 360) = num ((k + d) mod 360)"
  using jadd_num [of k d] jmod_num [of "k + d" 360] assms by simp

lemma hue_shift_analogous:
  assumes "0 \<le> k" "k < 360" "- 30 \<le> d" "d < 360"
  shows "jmod (jadd (jadd (num k) (num d)) (num 360)) (num 360) = num ((k + d + 360) mod 360)"
  using jadd_num [of k d] jadd_num [of "k + d" 360] jmod_num [of "k + d + 360" 360] assms
  by simp

text \<open>
  C6. For a base colour whose hue is an integer in [0, 360), every colour returned by
  \<open>getComplementary\<close>, \<open>getAnalogous\<close>, \<open>getTriadic\<close> and \<open>getTetradic\<close> has an
  integer hue in [0, 360), and the saturation and lightness of the base.
\<close>

theorem palette_hues_wrap:
  assumes "hsl_h (hsl base) = num k" "0 \<le> k" "k < 360"
  shows "list_all (\<lambda>c. int_between 0 359 (hsl_h (hsl c))
                      \<and> hsl_s (hsl c) = hsl_s (hsl base)
                      \<and> hsl_l (hsl c) = hsl_l (hsl base))
           (getComplementary base # getAnalogous base @ getTriadic base @ getTetradic base)"
proof -
  have m: "0 \<le> j mod 360 \<and> j mod 360 \<le> 359" for j :: int
    using pos_mod_bound [of 360 j] pos_mod_sign [of 360 j] by simp
  have s: "jmod (jadd (num k) (num d)) (num 360) = num ((k + d) mod 360)"
    if "0 \<le> d" "d < 360" for d
    using hue_shift [OF assms(2,3) that] .
  have a: "jmod (jadd (jadd (num k) (num d)) (num 360)) (num 360) = num ((k + d + 360) mod 360)"
    if "- 30 \<le> d" "d < 360" for d
    using hue_shift_analogous [OF assms(2,3) that] .
  show ?thesis
    using s [of 0] s [of 90] s [of 120] s [of 180] s [of 240] s [of 270]
      a [of "- 30"] a [of 0] a [of 30] m
    by (simp add: getComplementary_def getAnalogous_def getTriadic_def getTetradic_def
          fromHsl_def assms(1) int_between_def)
qed

theorem palette_hues_wrap_witness:
  "hsl_h (hsl pure_red) = num 0 \<and> (0::int) \<le> 0 \<and> (0::int) < 360
   \<and> list_all (\<lambda>c. int_between 0 359 (hsl_h (hsl c))
                   \<and> hsl_s (hsl c) = hsl_s (hsl pure_red)
                   \<and> hsl_l (hsl c) = hsl_l (hsl pure_red))
         (getComplementary pure_red # getAnalogous pure_red @ getTriadic pure_red
            @ getTetradic pure_red)"
  using palette_hues_wrap [of pure_red 0] by (simp add: pure_red_def)

section \<open>Monochromatic palettes\<close>

lemma mono_loop_hsl:
  "map hsl (mono_loop color count step i colors)
     = map hsl colors
       @ map (\<lambda>j. (hsl color)\<lparr>hsl_l := Math_round (jadd (num 10) (jmul step (num j)))\<rparr>)
           [i..count - 1]"
proof (induction color count step i colors rule: mono_loop.induct)
  case (1 color count step i colors)
  show ?case
  proof (cases "i < count")
    case True
    then have "[i..count - 1] = i # [i + 1..count - 1]" by (simp add: upto_rec1)
    then show ?thesis
      using True "1.IH" by (subst mono_loop.simps) (simp add: fromHsl_def)
  next
    case False
    then show ?thesis by (subst mono_loop.simps) simp
  qed
qed

lemma getMonochromatic_hsl:
  "map hsl (getMonochromatic color (Some count))
     = map (\<lambda>j. (hsl color)\<lparr>hsl_l := Math_round
                (jadd (num 10) (jmul (jdiv (num 80) (jsub (num count) (num 1))) (num j)))\<rparr>)
         [0..count - 1]"
  by (simp add: getMonochromatic_def mono_loop_hsl)

lemma mono_lightness_eval:
  assumes "3 \<le> count" "count \<le> 10" "0 \<le> j" "j < count"
  shows "Math_round (jadd (num 10) (jmul (jdiv (num 80) (jsub (num count) (num 1))) (num j)))
           = num \<lfloor>10 + of_int j * (80 / (of_int count - 1)) + 1 / 2 :: rat\<rfloor>"
proof -
  have "count = 3 \<or> count = 4 \<or> count = 5 \<or> count = 6 \<or> count = 7 \<or> count = 8
      \<or> count = 9 \<or> count = 10"
    using assms(1,2) by arith
  moreover have "j = 0 \<or> j = 1 \<or> j = 2 \<or> j = 3 \<or> j = 4 \<or> j = 5 \<or> j = 6 \<or> j = 7
      \<or> j = 8 \<or> j = 9"
    using assms(2,3,4) by arith
  ultimately show ?thesis
    using assms(4) by (elim disjE; simp add: num_eval)
qed


lemma getMonochromatic_hsl_exact:
  assumes "3 \<le> count" "count \<le> 10"
  shows "map hsl (getMonochromatic base (Some count))
           = map (\<lambda>i. (hsl base)
                    \<lparr>hsl_l := num \<lfloor>10 + of_int i * (80 / (of_int count - 1)) + 1 / 2 :: rat\<rfloor>\<rparr>)
               [0..count - 1]"
  unfolding getMonochromatic_hsl
proof (rule map_cong [OF refl])
  fix j assume "j \<in> set [0..count - 1]"
  then have "0 \<le> j" "j < count" by simp_all
  then show "(hsl base)\<lparr>hsl_l := Math_round
                (jadd (num 10) (jmul (jdiv (num 80) (jsub (num count) (num 1))) (num j)))\<rparr>
      = (hsl base)\<lparr>hsl_l := num \<lfloor>10 + of_int j * (80 / (of_int count - 1)) + 1 / 2 :: rat\<rfloor>\<rparr>"
    using mono_lightness_eval [OF assms] by simp
qed

lemma upto_0_4: "[0..4] = [0, 1, 2, 3, 4 :: int]" and upto_0_3: "[0..3] = [0, 1, 2, 3 :: int]"
  by (simp_all add: upto_rec1)

text \<open>
  C7 (as amended). For every base colour and every count from 3 to 10,
  \<open>getMonochromatic\<close> returns exactly \<open>count\<close> colours that keep the base's hue and
  saturation; the lightness of colour \<open>i\<close> is \<open>10 + i * 80 / (count - 1)\<close> rounded to the
  nearest integer, so the values run from 10 to 90 but step evenly only where
  \<open>80 / (count - 1)\<close> is whole. With count 5, or without a count, the lightness values
  are 10, 30, 50, 70, 90.
\<close>

theorem getMonochromatic_rounded_steps:
  assumes "3 \<le> count" "count \<le> 10"
  shows "length (getMonochromatic base (Some count)) = nat count
    \<and> map hsl (getMonochromatic base (Some count))
        = map (\<lambda>i. (hsl base)
                 \<lparr>hsl_l := num \<lfloor>10 + of_int i * (80 / (of_int count - 1)) + 1 / 2 :: rat\<rfloor>\<rparr>)
            [0..count - 1]
    \<and> list_all (\<lambda>c. hsl_h (hsl c) = hsl_h (hsl base) \<and> hsl_s (hsl c) = hsl_s (hsl base))
          (getMonochromatic base (Some count))
    \<and> hsl_l (hsl (hd (getMonochromatic base (Some count)))) = num 10
    \<and> hsl_l (hsl (last (getMonochromatic base (Some count)))) = num 90
    \<and> map (hsl_l \<circ> hsl) (getMonochromatic base (Some 5))
        = [num 10, num 30, num 50, num 70, num 90]
    \<and> getMonochromatic base None = getMonochromatic base (Some 5)"
proof -
  let ?cs = "getMonochromatic base (Some count)"
  let ?f = "\<lambda>i. (hsl base)
              \<lparr>hsl_l := num \<lfloor>10 + of_int i * (80 / (of_int count - 1)) + 1 / 2 :: rat\<rfloor>\<rparr>"
  have eq: "map hsl ?cs = map ?f [0..count - 1]"
    by (rule getMonochromatic_hsl_exact [OF assms])
  have "length (map hsl ?cs) = length (map ?f [0..count - 1])" by (simp only: eq)
  then have len: "length ?cs = nat count" by simp
  then have ne: "?cs \<noteq> []" using assms(1) by auto
  have "list_all (\<lambda>c. hsl_h c = hsl_h (hsl base) \<and> hsl_s c = hsl_s (hsl base)) (map hsl ?cs)"
    unfolding eq by (simp add: list_all_iff)
  then have keep: "list_all (\<lambda>c. hsl_h (hsl c) = hsl_h (hsl base)
      \<and> hsl_s (hsl c) = hsl_s (hsl base)) ?cs"
    by (simp add: list_all_iff)
  have up: "[0..count - 1] = 0 # [1..count - 1]" "[0..count - 1] = [0..count - 2] @ [count - 1]"
    using assms(1) upto_rec1 [of 0 "count - 1"] upto_rec2 [of 0 "count - 1"] by simp_all
  have "hsl (hd ?cs) = hd (map hsl ?cs)" using ne by (simp add: hd_map)
  then have first: "hsl_l (hsl (hd ?cs)) = num 10"
    unfolding eq up(1) by simp
  have "hsl (last ?cs) = last (map hsl ?cs)" using ne by (simp add: last_map)
  also have "\<dots> = ?f (count - 1)" unfolding eq up(2) by simp
  finally have "hsl_l (hsl (last ?cs))
      = num \<lfloor>10 + of_int (count - 1) * (80 / (of_int count - 1)) + 1 / 2 :: rat\<rfloor>"
    by simp
  moreover have "(of_int (count - 1) :: rat) * (80 / (of_int count - 1)) = 80"
  proof -
    define a :: rat where "a = of_int count - 1"
    have "a \<noteq> 0" using assms(1) by (simp add: a_def)
    then have "a * (80 / a) = 80" by simp
    then show ?thesis by (simp add: a_def)
  qed
  ultimately have final: "hsl_l (hsl (last ?cs)) = num 90"
    by (simp only:) simp
  have "map hsl_l (map hsl (getMonochromatic base (Some 5)))
      = [num 10, num 30, num 50, num 70, num 90]"
    by (simp add: getMonochromatic_hsl_exact upto_0_4)
  then have five: "map (hsl_l \<circ> hsl) (getMonochromatic base (Some 5))
      = [num 10, num 30, num 50, num 70, num 90]"
    by simp
  have dflt: "getMonochromatic base None = getMonochromatic base (Some 5)"
    by (simp add: getMonochromatic_def)
  show ?thesis using len eq keep first final five dflt by blast
qed

theorem getMonochromatic_rounded_steps_witness:
  "(3::int) \<le> 5 \<and> (5::int) \<le> 10
   \<and> length (getMonochromatic pure_red (Some 5)) = 5
   \<and> map (hsl_l \<circ> hsl) (getMonochromatic pure_red (Some 5))
       = [num 10, num 30, num 50, num 70, num 90]
   \<and> list_all (\<lambda>c. hsl_h (hsl c) = num 0 \<and> hsl_s (hsl c) = num 100)
         (getMonochromatic pure_red (Some 5))"
  using getMonochromatic_rounded_steps [of 5 pure_red] by (simp add: pure_red_def)

theorem getMonochromatic_steps_not_linear:
  "map (hsl_l \<circ> hsl) (getMonochromatic pure_red (Some 4)) = [num 10, num 37, num 63, num 90]
   \<and> map (hsl_l \<circ> hsl) (getMonochromatic pure_red (Some 4))
       \<noteq> map (\<lambda>i. Fin (10 + of_int i * (80 / (4 - 1)))) [0..3]"
proof -
  have "map hsl_l (map hsl (getMonochromatic pure_red (Some 4)))
      = [num 10, num 37, num 63, num 90]"
    by (simp add: getMonochromatic_hsl_exact upto_0_3)
  then have "map (hsl_l \<circ> hsl) (getMonochromatic pure_red (Some 4))
      = [num 10, num 37, num 63, num 90]"
    by simp
  then show ?thesis by (simp add: upto_0_3)
qed

section \<open>HEX and RGB\<close>

lemma int_betweenE:
  assumes "int_between lo hi x"
  obtains j where "x = num j" "lo \<le> j" "j \<le> hi"
proof (cases x)
  case (Fin q)
  with assms have "of_int \<lfloor>q\<rfloor> = q \<and> of_int lo \<le> q \<and> q \<le> of_int hi"
    unfolding int_between_def by (simp only: jsnum.case)
  then have q0: "of_int \<lfloor>q\<rfloor> = q" and q23: "of_int lo \<le> q" "q \<le> of_int hi" by blast+
  note q = q0 [symmetric] q23
  have "lo \<le> \<lfloor>q\<rfloor>" using q(2) by (simp only: le_floor_iff)
  moreover have "\<lfloor>q\<rfloor> \<le> hi" using q(1,3) by (metis of_int_le_iff)
  moreover have "x = num \<lfloor>q\<rfloor>" using Fin q(1) by simp
  ultimately show ?thesis using that by blast
qed (use assms in \<open>simp_all add: int_between_def\<close>)

lemma hex_char_props:
  assumes "0 \<le> d" "d < 16"
  shows "digit_val (upper_char (hex_char d)) = Some d"
    and "\<not> is_ws (upper_char (hex_char d))"
    and "upper_char (hex_char d) \<notin> set ''-+xX#''"
proof -
  have "d = 0 \<or> d = 1 \<or> d = 2 \<or> d = 3 \<or> d = 4 \<or> d = 5 \<or> d = 6 \<or> d = 7 \<or> d = 8 \<or> d = 9
      \<or> d = 10 \<or> d = 11 \<or> d = 12 \<or> d = 13 \<or> d = 14 \<or> d = 15"
    using assms by arith
  then have "digit_val (upper_char (hex_char d)) = Some d
      \<and> \<not> is_ws (upper_char (hex_char d)) \<and> upper_char (hex_char d) \<notin> set ''-+xX#''"
    by (elim disjE; simp add: hex_char_def upper_char_ascii digit_val_def is_ws_def)
  then show "digit_val (upper_char (hex_char d)) = Some d"
    and "\<not> is_ws (upper_char (hex_char d))"
    and "upper_char (hex_char d) \<notin> set ''-+xX#''"
    by simp_all
qed

lemma Math_round_num: "Math_round (num a) = num a"
proof -
  have "\<lfloor>(of_int a :: rat) + 1 / 2\<rfloor> = a" by linarith
  then show ?thesis by simp
qed

lemma toHex_byte:
  assumes "0 \<le> a" "a \<le> 255"
  shows "toHex (num a) = [hex_char (a div 16), hex_char (a mod 16)]"
proof (cases "a < 16")
  case True
  then have "hex_digits a = [hex_char a]" by (subst hex_digits.simps) simp
  then show ?thesis
    using True assms by (simp add: toHex_def Math_round_num hex_char_def)
next
  case False
  then have "a div 16 < 16" using assms by simp
  then have "hex_digits (a div 16) = [hex_char (a div 16)]" by (subst hex_digits.simps) simp
  then have "hex_digits a = [hex_char (a div 16), hex_char (a mod 16)]"
    using False by (subst hex_digits.simps) simp
  then show ?thesis
    using assms by (simp add: toHex_def Math_round_num)
qed

lemma parseInt_hex_pair:
  assumes "digit_val c1 = Some d1" "digit_val c2 = Some d2" "0 \<le> d1" "d1 < 16" "0 \<le> d2" "d2 < 16"
    and "\<not> is_ws c1" "c1 \<notin> set ''-+xX#''" "c2 \<notin> set ''-+xX#''"
  shows "parseInt [c1, c2] 16 = num (16 * d1 + d2)"
proof -
  have "rnd (of_int (d1 * 16 + d2)) = num (d1 * 16 + d2)"
    using assms(3-6) by (intro rnd_of_int) simp
  then show ?thesis
    using assms by (simp add: parseInt_def startsWith_def is_radix_digit_def mult.commute)
qed


lemma parseInt_toHex:
  assumes "0 \<le> a" "a \<le> 255"
  shows "parseInt (map upper_char (toHex (num a))) 16 = num a"
proof -
  have d: "0 \<le> a div 16" "a div 16 < 16" "0 \<le> a mod 16" "a mod 16 < 16"
    using assms by simp_all
  have "parseInt [upper_char (hex_char (a div 16)), upper_char (hex_char (a mod 16))] 16
      = num (16 * (a div 16) + a mod 16)"
    by (rule parseInt_hex_pair)
      (use d hex_char_props [of "a div 16"] hex_char_props [of "a mod 16"] in simp_all)
  then show ?thesis by (simp add: toHex_byte [OF assms])
qed

lemma length_toHex: "0 \<le> a \<Longrightarrow> a \<le> 255 \<Longrightarrow> length (toHex (num a)) = 2"
  by (simp add: toHex_byte)

lemma hexToRgb_rgbToHex_num:
  assumes "0 \<le> a" "a \<le> 255" "0 \<le> b" "b \<le> 255" "0 \<le> d" "d \<le> 255"
  shows "hexToRgb (rgbToHex \<lparr>rgb_r = num a, rgb_g = num b, rgb_b = num d\<rparr>)
           = \<lparr>rgb_r = num a, rgb_g = num b, rgb_b = num d\<rparr>"
proof -
  define ra where "ra = map upper_char (toHex (num a))"
  define rb where "rb = map upper_char (toHex (num b))"
  define rd where "rd = map upper_char (toHex (num d))"
  have len: "length ra = 2" "length rb = 2" "length rd = 2"
    using assms by (simp_all add: ra_def rb_def rd_def length_toHex)
  have hx: "rgbToHex \<lparr>rgb_r = num a, rgb_g = num b, rgb_b = num d\<rparr> = CHR ''#'' # ra @ rb @ rd"
    by (simp add: rgbToHex_def toUpperCase_def ra_def rb_def rd_def upper_char_ascii)
  have p: "parseInt ra 16 = num a" "parseInt rb 16 = num b" "parseInt rd 16 = num d"
    using assms by (simp_all add: ra_def rb_def rd_def parseInt_toHex)
  show ?thesis
    unfolding hx using len p by (simp add: hexToRgb_def startsWith_def substring_def)
qed

text \<open>
  C2. For every RGB triple of integers in [0, 255], \<open>hexToRgb (rgbToHex rgb)\<close> is
  \<open>rgb\<close> again.
\<close>

theorem hexToRgb_rgbToHex:
  assumes "int_between 0 255 (rgb_r c)" "int_between 0 255 (rgb_g c)"
    "int_between 0 255 (rgb_b c)"
  shows "hexToRgb (rgbToHex c) = c"
proof -
  from assms(1) obtain a where a: "rgb_r c = num a" "0 \<le> a" "a \<le> 255" by (rule int_betweenE)
  from assms(2) obtain b where b: "rgb_g c = num b" "0 \<le> b" "b \<le> 255" by (rule int_betweenE)
  from assms(3) obtain d where d: "rgb_b c = num d" "0 \<le> d" "d \<le> 255" by (rule int_betweenE)
  have "c = \<lparr>rgb_r = num a, rgb_g = num b, rgb_b = num d\<rparr>"
    using a(1) b(1) d(1) by (cases c) simp
  then show ?thesis
    using hexToRgb_rgbToHex_num [OF a(2,3) b(2,3) d(2,3)] by simp
qed

theorem hexToRgb_rgbToHex_witness:
  "int_between 0 255 (num 18) \<and> int_between 0 255 (num 171) \<and> int_between 0 255 (num 255)
   \<and> hexToRgb (rgbToHex \<lparr>rgb_r = num 18, rgb_g = num 171, rgb_b = num 255\<rparr>)
       = \<lparr>rgb_r = num 18, rgb_g = num 171, rgb_b = num 255\<rparr>"
  using hexToRgb_rgbToHex [of "\<lparr>rgb_r = num 18, rgb_g = num 171, rgb_b = num 255\<rparr>"]
  by (simp add: int_between_def)

section \<open>The range of \<open>rgbToHsl\<close>\<close>

definition fin_in :: "rat \<Rightarrow> rat \<Rightarrow> jsnum \<Rightarrow> bool" where
  "fin_in lo hi x = (case x of Fin q \<Rightarrow> lo \<le> q \<and> q \<le> hi | _ \<Rightarrow> False)"

lemma fin_in_Fin: "fin_in lo hi (Fin q) \<longleftrightarrow> lo \<le> q \<and> q \<le> hi"
  by (simp add: fin_in_def)

lemma fin_inE:
  assumes "fin_in lo hi x"
  obtains q where "x = Fin q" "lo \<le> q" "q \<le> hi"
  using assms by (cases x) (simp_all add: fin_in_def)

lemma rnd_bounds:
  assumes "of_int lo \<le> x" "x \<le> of_int hi" "\<bar>lo\<bar> \<le> 2 ^ 53" "\<bar>hi\<bar> \<le> 2 ^ 53"
  shows "rnd x = Fin (fl x)" and "of_int lo \<le> fl x" and "fl x \<le> of_int hi"
proof -
  show "of_int lo \<le> fl x"
    using fl_mono [OF assms(1)] fl_of_int [OF assms(3)] by simp
  show "fl x \<le> of_int hi"
    using fl_mono [OF assms(2)] fl_of_int [OF assms(4)] by simp
  have "(of_int \<bar>lo\<bar> :: rat) \<le> of_int (2 ^ 53)" "(of_int \<bar>hi\<bar> :: rat) \<le> of_int (2 ^ 53)"
    using assms(3,4) by (simp_all only: of_int_le_iff)
  then have "\<bar>of_int lo :: rat\<bar> \<le> 2 ^ 64" "\<bar>of_int hi :: rat\<bar> \<le> 2 ^ 64" by simp_all
  then have "\<bar>x\<bar> \<le> 2 ^ 64" using assms(1,2) by linarith
  then show "rnd x = Fin (fl x)" by (rule rnd_Fin)
qed

lemma fin_in_rnd:
  assumes "of_int lo \<le> x" "x \<le> of_int hi" "\<bar>lo\<bar> \<le> 2 ^ 53" "\<bar>hi\<bar> \<le> 2 ^ 53"
  shows "fin_in (of_int lo) (of_int hi) (rnd x)"
  using rnd_bounds [OF assms] by (simp add: fin_in_Fin)

lemma round_scaled:
  assumes "fin_in 0 1 x" "0 \<le> c" "c \<le> 1000"
  shows "int_between 0 c (Math_round (jmul x (num c)))"
proof -
  from assms(1) obtain q where q: "x = Fin q" "0 \<le> q" "q \<le> 1" by (rule fin_inE)
  have "of_int 0 \<le> q * of_int c" using q(2) assms(2) by simp
  moreover have "q * of_int c \<le> of_int c"
    using mult_right_mono [of q 1 "of_int c"] q(3) assms(2) by simp
  ultimately have r: "rnd (q * of_int c) = Fin (fl (q * of_int c))"
    "of_int 0 \<le> fl (q * of_int c)" "fl (q * of_int c) \<le> of_int c"
    using assms(2,3) rnd_bounds [of 0 "q * of_int c" c] by simp_all
  define y where "y = fl (q * of_int c)"
  have "0 \<le> \<lfloor>y + 1 / 2\<rfloor>" using r(2) by (simp add: y_def)
  moreover have "\<lfloor>y + 1 / 2\<rfloor> \<le> c"
  proof -
    have "y + 1 / 2 < of_int c + 1" using r(3) by (simp add: y_def)
    then show ?thesis by linarith
  qed
  ultimately show ?thesis
    using r(1) by (simp add: q(1) y_def int_between_num)
qed

lemma unit_quotient:
  assumes "\<bar>a\<bar> \<le> b" "0 < b"
  shows "\<exists>q. jdiv (Fin a) (Fin b) = Fin q \<and> - 1 \<le> q \<and> q \<le> 1 \<and> (0 \<le> a \<longrightarrow> 0 \<le> q)
    \<and> (a \<le> 0 \<longrightarrow> q \<le> 0)"
proof -
  have "of_int (- 1) \<le> a / b" "a / b \<le> of_int 1"
    using assms by (simp_all add: pos_le_divide_eq pos_divide_le_eq abs_le_iff) 
  then have r: "rnd (a / b) = Fin (fl (a / b))" "of_int (- 1) \<le> fl (a / b)" "fl (a / b) \<le> of_int 1"
    using rnd_bounds [of "- 1" "a / b" 1] by simp_all
  have "0 \<le> fl (a / b)" if "0 \<le> a"
    using that assms(2) by (intro fl_nonneg) simp
  moreover have "fl (a / b) \<le> 0" if "a \<le> 0"
  proof -
    have "a / b \<le> 0" using that assms(2) by (simp add: divide_le_0_iff)
    then show ?thesis using fl_mono [of "a / b" 0] by (simp add: fl_0)
  qed
  ultimately show ?thesis using r assms(2) by auto
qed


lemma fl_abs_mono:
  assumes "\<bar>x\<bar> \<le> y"
  shows "\<bar>fl x\<bar> \<le> fl y"
proof -
  have "fl x \<le> fl y" "fl (- y) \<le> fl x" using assms by (auto intro!: fl_mono)
  then show ?thesis by (simp add: fl_minus abs_le_iff)
qed

text \<open>The two conditional expressions of \<open>rgbToHsl\<close>, named.\<close>

definition sat_of :: "jsnum \<Rightarrow> jsnum \<Rightarrow> jsnum \<Rightarrow> jsnum \<Rightarrow> jsnum" where
  "sat_of mx mn diff l =
     (if \<not> jeq diff (num 0)
      then (if jgt l (Fin (1 / 2)) then jdiv diff (jsub (jsub (num 2) mx) mn)
            else jdiv diff (jadd mx mn))
      else num 0)"

definition hue_of :: "jsnum \<Rightarrow> jsnum \<Rightarrow> jsnum \<Rightarrow> jsnum \<Rightarrow> jsnum \<Rightarrow> jsnum" where
  "hue_of r g b mx diff =
     (if \<not> jeq diff (num 0)
      then (if jeq mx r
            then jdiv (jadd (jdiv (jsub g b) diff) (if jlt g b then num 6 else num 0)) (num 6)
            else if jeq mx g then jdiv (jadd (jdiv (jsub b r) diff) (num 2)) (num 6)
            else if jeq mx b then jdiv (jadd (jdiv (jsub r g) diff) (num 4)) (num 6)
            else num 0)
      else num 0)"

lemma rgbToHsl_alt:
  "rgbToHsl c =
     (let r = jdiv (rgb_r c) (num 255);
          g = jdiv (rgb_g c) (num 255);
          b = jdiv (rgb_b c) (num 255);
          mx = Math_max r g b;
          mn = Math_min r g b;
          diff = jsub mx mn;
          l = jdiv (jadd mx mn) (num 2)
      in \<lparr>hsl_h = Math_round (jmul (hue_of r g b mx diff) (num 360)),
          hsl_s = Math_round (jmul (sat_of mx mn diff l) (num 100)),
          hsl_l = Math_round (jmul l (num 100))\<rparr>)"
  unfolding rgbToHsl_def sat_of_def hue_of_def Let_def by (rule refl)

lemma channel_unit:
  assumes "0 \<le> R" "R \<le> 255"
  obtains q where "jdiv (num R) (num 255) = Fin q" "0 \<le> q" "q \<le> 1" "fl q = q"
proof -
  have "of_int 0 \<le> (of_int R :: rat) / 255" "(of_int R :: rat) / 255 \<le> of_int 1"
    using assms by simp_all
  then have "rnd (of_int R / 255) = Fin (fl (of_int R / 255))"
    "0 \<le> fl (of_int R / 255)" "fl (of_int R / 255) \<le> 1"
    using rnd_bounds [of 0 "of_int R / 255" 1] by simp_all
  moreover have "fl (fl (of_int R / 255)) = fl (of_int R / 255)" by (rule fl_idem)
  ultimately show ?thesis using that [of "fl (of_int R / 255)"] by simp
qed

lemma hue_sector:
  assumes "\<bar>n\<bar> \<le> d" "0 < d" "k \<in> {0, 2, 4, 6}" "k = 0 \<longrightarrow> 0 \<le> n" "k = 6 \<longrightarrow> n \<le> 0"
  shows "fin_in 0 1 (jdiv (jadd (jdiv (Fin n) (Fin d)) (num k)) (num 6))"
proof -
  from unit_quotient [OF assms(1,2)] obtain q where q: "jdiv (Fin n) (Fin d) = Fin q"
    "- 1 \<le> q" "q \<le> 1" "0 \<le> n \<longrightarrow> 0 \<le> q" "n \<le> 0 \<longrightarrow> q \<le> 0"
    by blast
  have "of_int 0 \<le> q + of_int k" "q + of_int k \<le> of_int 6"
    using q(2-5) assms(3-5) by auto
  then have y: "rnd (q + of_int k) = Fin (fl (q + of_int k))"
    "0 \<le> fl (q + of_int k)" "fl (q + of_int k) \<le> 6"
    using rnd_bounds [of 0 "q + of_int k" 6] by simp_all
  define y where "y = fl (q + of_int k)"
  have "of_int 0 \<le> y / 6" "y / 6 \<le> of_int 1" using y(2,3) by (simp_all add: y_def)
  then have "fin_in (of_int 0) (of_int 1) (rnd (y / 6))"
    by (intro fin_in_rnd) simp_all
  then show ?thesis unfolding q(1) using y(1) by (simp add: y_def)
qed


lemma channel_difference:
  assumes "mn \<le> x" "x \<le> mx" "mn \<le> y" "y \<le> mx" "0 \<le> mn" "mx \<le> 1"
  shows "jsub (Fin x) (Fin y) = Fin (fl (x - y))"
    and "\<bar>fl (x - y)\<bar> \<le> fl (mx - mn)"
    and "x < y \<longrightarrow> fl (x - y) \<le> 0"
    and "\<not> x < y \<longrightarrow> 0 \<le> fl (x - y)"
proof -
  have "of_int (- 1) \<le> x - y" "x - y \<le> of_int 1" using assms by simp_all
  then have "rnd (x - y) = Fin (fl (x - y))" using rnd_bounds [of "- 1" "x - y" 1] by simp
  then show "jsub (Fin x) (Fin y) = Fin (fl (x - y))" by (simp add: jsub_def)
  have "\<bar>x - y\<bar> \<le> mx - mn" using assms by (simp add: abs_le_iff)
  then show "\<bar>fl (x - y)\<bar> \<le> fl (mx - mn)" by (rule fl_abs_mono)
  show "x < y \<longrightarrow> fl (x - y) \<le> 0"
    using fl_mono [of "x - y" 0] by (simp add: fl_0)
  show "\<not> x < y \<longrightarrow> 0 \<le> fl (x - y)"
    using fl_nonneg [of "x - y"] by simp
qed

lemma rgbToHsl_range_num:
  assumes "0 \<le> R" "R \<le> 255" "0 \<le> G" "G \<le> 255" "0 \<le> B" "B \<le> 255"
  defines "c \<equiv> \<lparr>rgb_r = num R, rgb_g = num G, rgb_b = num B\<rparr>"
  shows "int_between 0 360 (hsl_h (rgbToHsl c))"
    and "int_between 0 100 (hsl_s (rgbToHsl c))"
    and "int_between 0 100 (hsl_l (rgbToHsl c))"
proof -
  obtain r where r: "jdiv (num R) (num 255) = Fin r" "0 \<le> r" "r \<le> 1" "fl r = r"
    using channel_unit [OF assms(1,2)] .
  obtain g where g: "jdiv (num G) (num 255) = Fin g" "0 \<le> g" "g \<le> 1" "fl g = g"
    using channel_unit [OF assms(3,4)] .
  obtain b where b: "jdiv (num B) (num 255) = Fin b" "0 \<le> b" "b \<le> 1" "fl b = b"
    using channel_unit [OF assms(5,6)] .
  define mx where "mx = max (max r g) b"
  define mn where "mn = min (min r g) b"
  have mx: "Math_max (Fin r) (Fin g) (Fin b) = Fin mx"
    by (simp add: Math_max_def Math_max2_def mx_def max_def)
  have mn: "Math_min (Fin r) (Fin g) (Fin b) = Fin mn"
    by (simp add: Math_min_def Math_min2_def mn_def min_def)
  have b1: "0 \<le> mn" "mn \<le> mx" "mx \<le> 1"
    using r(2,3) g(2,3) b(2,3) by (simp_all add: mx_def mn_def)
  have rep: "fl mx = mx"
    using r(4) g(4) b(4) by (simp add: mx_def max_def)
  have within: "mn \<le> r" "r \<le> mx" "mn \<le> g" "g \<le> mx" "mn \<le> b" "b \<le> mx"
    by (simp_all add: mx_def mn_def)
  define d where "d = fl (mx - mn)"
  have d: "jsub (Fin mx) (Fin mn) = Fin d" "0 \<le> d"
    using rnd_bounds [of 0 "mx - mn" 1] b1 by (simp_all add: jsub_def d_def)
  define sm where "sm = fl (mx + mn)"
  have sm: "jadd (Fin mx) (Fin mn) = Fin sm" "0 \<le> sm" "sm \<le> 2"
    using rnd_bounds [of 0 "mx + mn" 2] b1 by (simp_all add: sm_def)
  have d_sm: "d \<le> sm"
    unfolding d_def sm_def using b1(1) by (intro fl_mono) simp
  have l: "fin_in 0 1 (jdiv (Fin sm) (num 2))"
  proof -
    have "of_int 0 \<le> sm / 2" "sm / 2 \<le> of_int 1" using sm(2,3) by simp_all
    then have "fin_in (of_int 0) (of_int 1) (rnd (sm / 2))" by (intro fin_in_rnd) simp_all
    then show ?thesis by simp
  qed
  define t where "t = fl (2 - mx)"
  have t: "jsub (num 2) (Fin mx) = Fin t" "mx \<le> t" "t \<le> 2"
  proof -
    have "of_int 1 \<le> 2 - mx" "2 - mx \<le> of_int 2" using b1 by simp_all
    then have "rnd (2 - mx) = Fin (fl (2 - mx))" "fl (2 - mx) \<le> 2"
      using rnd_bounds [of 1 "2 - mx" 2] by simp_all
    moreover have "fl mx \<le> fl (2 - mx)" using b1(3) by (intro fl_mono) simp
    ultimately show "jsub (num 2) (Fin mx) = Fin t" "mx \<le> t" "t \<le> 2"
      by (simp_all add: jsub_def t_def rep)
  qed
  define den where "den = fl (t - mn)"
  have den: "jsub (Fin t) (Fin mn) = Fin den" "d \<le> den"
  proof -
    have "of_int 0 \<le> t - mn" "t - mn \<le> of_int 2" using t(2,3) b1 by simp_all
    then have "rnd (t - mn) = Fin (fl (t - mn))" using rnd_bounds [of 0 "t - mn" 2] by simp
    moreover have "fl (mx - mn) \<le> fl (t - mn)" using t(2) by (intro fl_mono) simp
    ultimately show "jsub (Fin t) (Fin mn) = Fin den" "d \<le> den"
      by (simp_all add: jsub_def den_def d_def)
  qed
  have S: "fin_in 0 1 (sat_of (Fin mx) (Fin mn) (Fin d) L)" for L
  proof (cases "d = 0")
    case True
    then show ?thesis by (simp add: sat_of_def jeq_def fin_in_Fin)
  next
    case False
    then have dpos: "0 < d" using d(2) by simp
    from unit_quotient [of d den] obtain q1
      where q1: "jdiv (Fin d) (Fin den) = Fin q1" "0 \<le> q1" "q1 \<le> 1"
      using dpos den(2) by auto
    from unit_quotient [of d sm] obtain q2
      where q2: "jdiv (Fin d) (Fin sm) = Fin q2" "0 \<le> q2" "q2 \<le> 1"
      using dpos d_sm by auto
    show ?thesis
      unfolding sat_of_def t(1) den(1) sm(1) q1(1) q2(1)
      using q1(2,3) q2(2,3) by (simp add: fin_in_Fin)
  qed
  note gb = channel_difference [OF within(3,4,5,6) b1(1,3)]
  note br = channel_difference [OF within(5,6,1,2) b1(1,3)]
  note rg = channel_difference [OF within(1,2,3,4) b1(1,3)]
  have H: "fin_in 0 1 (hue_of (Fin r) (Fin g) (Fin b) (Fin mx) (Fin d))"
  proof (cases "d = 0")
    case True
    then show ?thesis by (simp add: hue_of_def jeq_def fin_in_Fin)
  next
    case False
    then have dpos: "0 < d" using d(2) by simp
    have h6: "fin_in 0 1 (jdiv (jadd (jdiv (Fin (fl (g - b))) (Fin d)) (num 6)) (num 6))"
      if "g < b"
      using that gb(2,3) dpos by (intro hue_sector) (simp_all add: d_def)
    have h0: "fin_in 0 1 (jdiv (jadd (jdiv (Fin (fl (g - b))) (Fin d)) (num 0)) (num 6))"
      if "\<not> g < b"
      using that gb(2,4) dpos by (intro hue_sector) (simp_all add: d_def)
    have h2: "fin_in 0 1 (jdiv (jadd (jdiv (Fin (fl (b - r))) (Fin d)) (num 2)) (num 6))"
      using br(2) dpos by (intro hue_sector) (simp_all add: d_def)
    have h4: "fin_in 0 1 (jdiv (jadd (jdiv (Fin (fl (r - g))) (Fin d)) (num 4)) (num 6))"
      using rg(2) dpos by (intro hue_sector) (simp_all add: d_def)
    have z: "fin_in 0 1 (num 0)" by (simp add: fin_in_Fin)
    show ?thesis
      unfolding hue_of_def gb(1) br(1) rg(1)
      using h6 h0 h2 h4 z by (simp only: jeq_def jlt.simps split: if_splits) blast
  qed
  have eq: "rgbToHsl c =
      \<lparr>hsl_h = Math_round (jmul (hue_of (Fin r) (Fin g) (Fin b) (Fin mx) (Fin d)) (num 360)),
       hsl_s = Math_round (jmul (sat_of (Fin mx) (Fin mn) (Fin d) (jdiv (Fin sm) (num 2))) (num 100)),
       hsl_l = Math_round (jmul (jdiv (Fin sm) (num 2)) (num 100))\<rparr>"
    unfolding rgbToHsl_alt Let_def c_def
    by (simp only: RGB.select_convs r(1) g(1) b(1) mx mn d(1) sm(1))
  show "int_between 0 360 (hsl_h (rgbToHsl c))"
    unfolding eq HSL.select_convs by (rule round_scaled [OF H]) simp_all
  show "int_between 0 100 (hsl_s (rgbToHsl c))"
    unfolding eq HSL.select_convs by (rule round_scaled [OF S]) simp_all
  show "int_between 0 100 (hsl_l (rgbToHsl c))"
    unfolding eq HSL.select_convs by (rule round_scaled [OF l]) simp_all
qed


text \<open>
  C9 (as amended). For every RGB triple of integers in [0, 255], \<open>rgbToHsl\<close> returns
  integers with the hue in [0, 360] (360 itself is reached: a hue within half a degree
  below 360 rounds up to it), and saturation and lightness in [0, 100].
\<close>

theorem rgbToHsl_range:
  assumes "int_between 0 255 (rgb_r c)" "int_between 0 255 (rgb_g c)"
    "int_between 0 255 (rgb_b c)"
  shows "int_between 0 360 (hsl_h (rgbToHsl c))
    \<and> int_between 0 100 (hsl_s (rgbToHsl c))
    \<and> int_between 0 100 (hsl_l (rgbToHsl c))"
proof -
  from assms(1) obtain R where R: "rgb_r c = num R" "0 \<le> R" "R \<le> 255" by (rule int_betweenE)
  from assms(2) obtain G where G: "rgb_g c = num G" "0 \<le> G" "G \<le> 255" by (rule int_betweenE)
  from assms(3) obtain B where B: "rgb_b c = num B" "0 \<le> B" "B \<le> 255" by (rule int_betweenE)
  have "c = \<lparr>rgb_r = num R, rgb_g = num G, rgb_b = num B\<rparr>"
    using R(1) G(1) B(1) by (cases c) simp
  then show ?thesis
    using rgbToHsl_range_num [OF R(2,3) G(2,3) B(2,3)] by simp
qed

lemma rgbToHsl_255_0_1:
  "rgbToHsl \<lparr>rgb_r = Fin 255, rgb_g = Fin 0, rgb_b = Fin 1\<rparr>
     = \<lparr>hsl_h = Fin 360, hsl_s = Fin 100, hsl_l = Fin 50\<rparr>"
  by (simp add: rgbToHsl_def num_eval cong: let_weak_cong)

theorem rgbToHsl_range_witness:
  "int_between 0 255 (num 255) \<and> int_between 0 255 (num 0) \<and> int_between 0 255 (num 1)
   \<and> int_between 0 360 (hsl_h (rgbToHsl \<lparr>rgb_r = num 255, rgb_g = num 0, rgb_b = num 1\<rparr>))
   \<and> int_between 0 100 (hsl_s (rgbToHsl \<lparr>rgb_r = num 255, rgb_g = num 0, rgb_b = num 1\<rparr>))
   \<and> int_between 0 100 (hsl_l (rgbToHsl \<lparr>rgb_r = num 255, rgb_g = num 0, rgb_b = num 1\<rparr>))"
  using rgbToHsl_range [of "\<lparr>rgb_r = num 255, rgb_g = num 0, rgb_b = num 1\<rparr>"]
  by (simp add: int_between_def)

theorem rgbToHsl_hue_reaches_360:
  "int_between 0 255 (num 255) \<and> int_between 0 255 (num 0) \<and> int_between 0 255 (num 1)
   \<and> hsl_h (rgbToHsl \<lparr>rgb_r = num 255, rgb_g = num 0, rgb_b = num 1\<rparr>) = num 360
   \<and> \<not> int_between 0 359 (hsl_h (rgbToHsl \<lparr>rgb_r = num 255, rgb_g = num 0, rgb_b = num 1\<rparr>))"
  using rgbToHsl_255_0_1 by (simp add: int_between_def)

section \<open>The rounding error\<close>





section \<open>From HSL to RGB and back\<close>

lemma rnd_0: "rnd 0 = Fin 0"
  by (simp add: rnd_def fl_0)








subsection \<open>The lightness survives\<close>


























lemma hslToRgb_200_5_95:
  "hslToRgb \<lparr>hsl_h = Fin 200, hsl_s = Fin 5, hsl_l = Fin 95\<rparr>
     = \<lparr>rgb_r = Fin 242, rgb_g = Fin 242, rgb_b = Fin 243\<rparr>"
  by (simp add: hslToRgb_def hue2rgb_def num_eval cong: let_weak_cong)

lemma rgbToHsl_242_242_243:
  "rgbToHsl \<lparr>rgb_r = Fin 242, rgb_g = Fin 242, rgb_b = Fin 243\<rparr>
     = \<lparr>hsl_h = Fin 240, hsl_s = Fin 4, hsl_l = Fin 95\<rparr>"
  by (simp add: rgbToHsl_def num_eval cong: let_weak_cong)






section \<open>What \<open>parseColor\<close> accepts\<close>

lemma digit_props:
  assumes "is_digit c"
  shows "\<not> is_ws c" and "is_radix_digit 10 c" and "c \<notin> set ''#,-+xX%)''"
proof -
  have "c \<in> set ''0123456789''" using assms by (simp add: is_digit_def)
  then have "\<not> is_ws c \<and> is_radix_digit 10 c \<and> c \<notin> set ''#,-+xX%)''"
    by (simp only: set_simps insert_iff empty_iff)
      (elim disjE; simp add: is_ws_def is_radix_digit_def digit_val_def)
  then show "\<not> is_ws c" and "is_radix_digit 10 c" and "c \<notin> set ''#,-+xX%)''"
    by simp_all
qed

lemma ws_not_digit: "is_ws c \<Longrightarrow> \<not> is_digit c"
  using digit_props(1) by blast

lemma takeWhile_run:
  assumes "list_all P xs" "\<not> P y"
  shows "takeWhile P (xs @ y # ys) = xs" and "dropWhile P (xs @ y # ys) = y # ys"
  using assms by (induction xs) simp_all

lemma parseInt_digits:
  assumes "d \<noteq> []" "list_all is_digit d"
  shows "parseInt d 0 = rnd (of_int (digits_value 10 0 d))"
proof -
  obtain c cs where d: "d = c # cs" using assms(1) by (cases d) auto
  have c: "is_digit c" using assms(2) d by simp
  have all10: "list_all (is_radix_digit 10) d"
    using assms(2) digit_props(2) by (simp add: list_all_iff)
  then have tw: "takeWhile (is_radix_digit 10) d = d" by (simp add: list_all_iff)
  have nox: "\<not> startsWith d ''0x''" "\<not> startsWith d ''0X''"
  proof -
    have "cs \<noteq> [] \<Longrightarrow> hd cs \<notin> set ''#,-+xX%)''"
      using assms(2) d digit_props(3) [of "hd cs"] by (cases cs) simp_all
    then show "\<not> startsWith d ''0x''" "\<not> startsWith d ''0X''"
      by (cases cs; simp add: startsWith_def d)+
  qed
  have nosign: "\<not> startsWith d ''-''" "\<not> startsWith d ''+''"
    using digit_props(3) [OF c] by (simp_all add: startsWith_def d)
  have dw: "dropWhile is_ws d = d" using digit_props(1) [OF c] by (simp add: d)
  have "parseInt d 0 =
      (let z = takeWhile (is_radix_digit 10) d
       in if z = [] then NaN else rnd (of_int (digits_value 10 0 z)))"
    unfolding parseInt_def dw Let_def using nox nosign by simp
  then show ?thesis
    unfolding tw Let_def using assms(1) by simp
qed


lemma match_digits_sep:
  assumes "d \<noteq> []" "list_all is_digit d" "\<not> is_digit sep" "list_all is_ws w"
    "rest \<noteq> []" "\<not> is_ws (hd rest)"
  shows "match_items (Digits # Chr sep # Spaces # ps) (d @ sep # w @ rest) caps
           = match_items ps rest (d # caps)"
proof -
  obtain y ys where rest: "rest = y # ys" using assms(5) by (cases rest) auto
  have "dropWhile is_ws (w @ y # ys) = y # ys"
    using takeWhile_run(2) [OF assms(4), of y ys] assms(6) rest by simp
  then show ?thesis
    using takeWhile_run [OF assms(2,3), of "w @ rest"] assms(1) by (simp add: rest)
qed

lemma match_digits_end:
  assumes "d \<noteq> []" "list_all is_digit d" "\<not> is_digit e"
  shows "match_items [Digits, Chr e] (d @ [e]) caps = Some (rev (d # caps))"
  using takeWhile_run [OF assms(2,3), of "[]"] assms(1) by simp

definition rgb_text :: "string \<Rightarrow> string \<Rightarrow> string \<Rightarrow> string \<Rightarrow> string \<Rightarrow> string" where
  \<comment> \<open>the text \<open>rgb(r,g,b)\<close> with white space \<open>w1\<close>, \<open>w2\<close> after the commas\<close>
  "rgb_text d1 w1 d2 w2 d3 = ''rgb('' @ d1 @ '','' @ w1 @ d2 @ '','' @ w2 @ d3 @ '')''"

lemma match_rgb_text:
  assumes "d1 \<noteq> []" "list_all is_digit d1" "d2 \<noteq> []" "list_all is_digit d2"
    "d3 \<noteq> []" "list_all is_digit d3" "list_all is_ws w1" "list_all is_ws w2"
  shows "match (rgb_text d1 w1 d2 w2 d3) rgb_pattern = Some [d1, d2, d3]"
proof -
  have nd: "\<not> is_digit CHR '',''" "\<not> is_digit CHR '')''"
    by (simp_all add: is_digit_def)
  have h2: "d2 @ '','' @ w2 @ d3 @ '')'' \<noteq> []" "\<not> is_ws (hd (d2 @ '','' @ w2 @ d3 @ '')''))"
    using assms(3,4) digit_props(1) [of "hd d2"] by (cases d2; simp)+
  have h3: "d3 @ '')'' \<noteq> []" "\<not> is_ws (hd (d3 @ '')''))"
    using assms(5,6) digit_props(1) [of "hd d3"] by (cases d3; simp)+
  have "match_items rgb_pattern (rgb_text d1 w1 d2 w2 d3) []
      = match_items [Digits, Chr CHR '','', Spaces, Digits, Chr CHR '','', Spaces, Digits,
          Chr CHR '')''] (d1 @ CHR '','' # w1 @ (d2 @ '','' @ w2 @ d3 @ '')'')) []"
    by (simp add: rgb_pattern_def rgb_text_def)
  also have "\<dots> = match_items [Digits, Chr CHR '','', Spaces, Digits, Chr CHR '')'']
      (d2 @ CHR '','' # w2 @ (d3 @ '')'')) [d1]"
    using match_digits_sep [OF assms(1,2) nd(1) assms(7) h2] by simp
  also have "\<dots> = match_items [Digits, Chr CHR '')''] (d3 @ '')'') [d2, d1]"
    by (rule match_digits_sep [OF assms(3,4) nd(1) assms(8) h3])
  also have "\<dots> = Some [d1, d2, d3]"
    using match_digits_end [OF assms(5,6) nd(2)] by simp
  finally have "match_items rgb_pattern (rgb_text d1 w1 d2 w2 d3) [] = Some [d1, d2, d3]" .
  moreover have "rgb_text d1 w1 d2 w2 d3 = CHR ''r'' # tl (rgb_text d1 w1 d2 w2 d3)"
    by (simp add: rgb_text_def)
  ultimately show ?thesis
    by (metis match.simps(2) option.simps(5))
qed

lemma trim_rgb_text: "trim (rgb_text d1 w1 d2 w2 d3) = rgb_text d1 w1 d2 w2 d3"
  by (simp add: trim_def rgb_text_def is_ws_def)

lemma parseColor_rgb_text:
  assumes "d1 \<noteq> []" "list_all is_digit d1" "d2 \<noteq> []" "list_all is_digit d2"
    "d3 \<noteq> []" "list_all is_digit d3" "list_all is_ws w1" "list_all is_ws w2"
  defines "c \<equiv> \<lparr>rgb_r = parseInt d1 0, rgb_g = parseInt d2 0, rgb_b = parseInt d3 0\<rparr>"
  shows "parseColor (rgb_text d1 w1 d2 w2 d3)
           = Inr \<lparr>hex = rgbToHex c, rgb = c, hsl = rgbToHsl c, name = None\<rparr>"
proof -
  have "\<not> startsWith (rgb_text d1 w1 d2 w2 d3) ''#''"
    by (simp add: startsWith_def rgb_text_def)
  then show ?thesis
    by (subst parseColor.simps)
      (simp add: trim_rgb_text match_rgb_text [OF assms(1-8)] c_def Let_def)
qed


definition decimal :: "string \<Rightarrow> int" where
  \<comment> \<open>the integer that a run of decimal digits writes\<close>
  "decimal d = digits_value 10 0 d"

lemma index_of_ge: "index_of c str i = Some v \<Longrightarrow> i \<le> v"
proof (induction str arbitrary: i)
  case Nil
  then show ?case by simp
next
  case (Cons x xs)
  show ?case
  proof (cases "c = x")
    case True
    then show ?thesis using Cons.prems by simp
  next
    case False
    then have "index_of c xs (i + 1) = Some v" using Cons.prems by simp
    then have "i + 1 \<le> v" by (rule Cons.IH)
    then show ?thesis by simp
  qed
qed

lemma digit_val_nonneg:
  assumes "digit_val c = Some v"
  shows "0 \<le> v"
proof (cases "index_of c ''0123456789abcdefghijklmnopqrstuvwxyz'' 0")
  case None
  then have "index_of c ''ABCDEFGHIJKLMNOPQRSTUVWXYZ'' 10 = Some v"
    using assms unfolding digit_val_def by (simp only: option.case)
  then show ?thesis using index_of_ge by fastforce
next
  case (Some u)
  then have "u = v" using assms unfolding digit_val_def by (simp only: option.case option.inject)
  then show ?thesis using index_of_ge [OF Some] by simp
qed

lemma digits_value_nonneg: "0 \<le> acc \<Longrightarrow> 0 \<le> digits_value 10 acc d"
proof (induction d arbitrary: acc)
  case Nil
  then show ?case by simp
next
  case (Cons c d)
  have "0 \<le> (case digit_val c of None \<Rightarrow> 0 | Some v \<Rightarrow> v)"
    using digit_val_nonneg by (auto split: option.splits)
  then show ?case using Cons by simp
qed

lemma decimal_nonneg: "0 \<le> decimal d"
  by (simp add: decimal_def digits_value_nonneg)

lemma upper_char_R: "upper_char x = CHR ''R'' \<Longrightarrow> x = CHR ''r'' \<or> x = CHR ''R''"
  by (simp add: upper_char_def split: option.splits if_splits)

lemma no_rgb_match:
  assumes "CHR ''r'' \<notin> set str" "CHR ''R'' \<notin> set str"
  shows "match str rgb_pattern = None"
  using assms
proof (induction str)
  case Nil
  then show ?case by (simp add: rgb_pattern_def)
next
  case (Cons x xs)
  have "upper_char x \<noteq> CHR ''R''" using Cons.prems upper_char_R [of x] by auto
  then have "match_items rgb_pattern (x # xs) [] = None"
    by (simp add: rgb_pattern_def upper_char_def [of "CHR ''r''"])
  then show ?case using Cons by simp
qed

lemma not_r:
  "is_digit CHR ''r'' \<Longrightarrow> False" "is_digit CHR ''R'' \<Longrightarrow> False"
  "is_ws CHR ''r'' \<Longrightarrow> False" "is_ws CHR ''R'' \<Longrightarrow> False"
  by (simp_all add: is_digit_def is_ws_def)

definition hsl_text :: "string \<Rightarrow> string \<Rightarrow> string \<Rightarrow> string \<Rightarrow> string \<Rightarrow> string" where
  \<comment> \<open>the text \<open>hsl(h,s%,l%)\<close> with white space \<open>w1\<close>, \<open>w2\<close> after the commas\<close>
  "hsl_text d1 w1 d2 w2 d3 = ''hsl('' @ d1 @ '','' @ w1 @ d2 @ ''%,'' @ w2 @ d3 @ ''%)''"

lemma hsl_text_no_r:
  assumes "list_all is_digit d1" "list_all is_digit d2" "list_all is_digit d3"
    "list_all is_ws w1" "list_all is_ws w2"
  shows "CHR ''r'' \<notin> set (hsl_text d1 w1 d2 w2 d3)" "CHR ''R'' \<notin> set (hsl_text d1 w1 d2 w2 d3)"
  using assms by (auto simp: hsl_text_def list_all_iff dest: not_r)

lemma match_digits_pct_sep:
  assumes "d \<noteq> []" "list_all is_digit d" "list_all is_ws w" "rest \<noteq> []" "\<not> is_ws (hd rest)"
  shows "match_items (Digits # Chr CHR ''%'' # Chr CHR '','' # Spaces # ps)
           (d @ CHR ''%'' # CHR '','' # w @ rest) caps
           = match_items ps rest (d # caps)"
proof -
  obtain y ys where rest: "rest = y # ys" using assms(4) by (cases rest) auto
  have nd: "\<not> is_digit CHR ''%''" by (simp add: is_digit_def)
  have "dropWhile is_ws (w @ y # ys) = y # ys"
    using takeWhile_run(2) [OF assms(3), of y ys] assms(5) rest by simp
  then show ?thesis
    using takeWhile_run [OF assms(2) nd, of "CHR '','' # w @ rest"] assms(1)
    by (simp add: rest)
qed

lemma match_digits_pct_end:
  assumes "d \<noteq> []" "list_all is_digit d"
  shows "match_items [Digits, Chr CHR ''%'', Chr CHR '')''] (d @ ''%)'') caps
           = Some (rev (d # caps))"
proof -
  have nd: "\<not> is_digit CHR ''%''" by (simp add: is_digit_def)
  show ?thesis
    using takeWhile_run [OF assms(2) nd, of "'')''"] assms(1) by simp
qed

lemma match_hsl_text:
  assumes "d1 \<noteq> []" "list_all is_digit d1" "d2 \<noteq> []" "list_all is_digit d2"
    "d3 \<noteq> []" "list_all is_digit d3" "list_all is_ws w1" "list_all is_ws w2"
  shows "match (hsl_text d1 w1 d2 w2 d3) hsl_pattern = Some [d1, d2, d3]"
proof -
  have nd: "\<not> is_digit CHR '',''" by (simp add: is_digit_def)
  have h2: "d2 @ ''%,'' @ w2 @ d3 @ ''%)'' \<noteq> []"
    "\<not> is_ws (hd (d2 @ ''%,'' @ w2 @ d3 @ ''%)''))"
    using assms(3,4) digit_props(1) [of "hd d2"] by (cases d2; simp)+
  have h3: "d3 @ ''%)'' \<noteq> []" "\<not> is_ws (hd (d3 @ ''%)''))"
    using assms(5,6) digit_props(1) [of "hd d3"] by (cases d3; simp)+
  have "match_items hsl_pattern (hsl_text d1 w1 d2 w2 d3) []
      = match_items [Digits, Chr CHR '','', Spaces, Digits, Chr CHR ''%'', Chr CHR '','',
          Spaces, Digits, Chr CHR ''%'', Chr CHR '')'']
          (d1 @ CHR '','' # w1 @ (d2 @ ''%,'' @ w2 @ d3 @ ''%)'')) []"
    by (simp add: hsl_pattern_def hsl_text_def)
  also have "\<dots> = match_items [Digits, Chr CHR ''%'', Chr CHR '','', Spaces, Digits,
      Chr CHR ''%'', Chr CHR '')''] (d2 @ CHR ''%'' # CHR '','' # w2 @ (d3 @ ''%)'')) [d1]"
    using match_digits_sep [OF assms(1,2) nd assms(7) h2] by simp
  also have "\<dots> = match_items [Digits, Chr CHR ''%'', Chr CHR '')''] (d3 @ ''%)'') [d2, d1]"
    by (rule match_digits_pct_sep [OF assms(3,4) assms(8) h3])
  also have "\<dots> = Some [d1, d2, d3]"
    using match_digits_pct_end [OF assms(5,6)] by simp
  finally have "match_items hsl_pattern (hsl_text d1 w1 d2 w2 d3) [] = Some [d1, d2, d3]" .
  moreover have "hsl_text d1 w1 d2 w2 d3 = CHR ''h'' # tl (hsl_text d1 w1 d2 w2 d3)"
    by (simp add: hsl_text_def)
  ultimately show ?thesis
    by (metis match.simps(2) option.simps(5))
qed

lemma trim_hsl_text: "trim (hsl_text d1 w1 d2 w2 d3) = hsl_text d1 w1 d2 w2 d3"
  by (simp add: trim_def hsl_text_def is_ws_def)

lemma parseColor_hsl_text:
  assumes "d1 \<noteq> []" "list_all is_digit d1" "d2 \<noteq> []" "list_all is_digit d2"
    "d3 \<noteq> []" "list_all is_digit d3" "list_all is_ws w1" "list_all is_ws w2"
  defines "c \<equiv> \<lparr>hsl_h = parseInt d1 0, hsl_s = parseInt d2 0, hsl_l = parseInt d3 0\<rparr>"
  shows "parseColor (hsl_text d1 w1 d2 w2 d3)
           = Inr \<lparr>hex = rgbToHex (hslToRgb c), rgb = hslToRgb c, hsl = c, name = None\<rparr>"
proof -
  have "\<not> startsWith (hsl_text d1 w1 d2 w2 d3) ''#''"
    by (simp add: startsWith_def hsl_text_def)
  moreover have "match (hsl_text d1 w1 d2 w2 d3) rgb_pattern = None"
    by (rule no_rgb_match) (rule hsl_text_no_r [OF assms(2,4,6,7,8)])+
  ultimately show ?thesis
    by (subst parseColor.simps)
      (simp add: trim_hsl_text match_hsl_text [OF assms(1-8)] c_def Let_def)
qed

lemma parseInt_2_53_plus_1: "parseInt ''9007199254740993'' 0 = Fin 9007199254740992"
  by (simp add: str_eval num_eval cong: let_weak_cong)


lemma parseInt_0: "parseInt ''0'' 0 = Fin 0"
  by (simp add: str_eval num_eval rnd_0 cong: let_weak_cong)

lemma rnd_decimal:
  assumes "decimal d \<le> 2 ^ 53"
  shows "rnd (of_int (decimal d)) = num (decimal d)"
  using assms decimal_nonneg [of d] by (intro rnd_of_int) simp

text \<open>
  C10 (as amended). \<open>parseColor\<close> does not check the range of the numbers of an
  \<open>rgb(r, g, b)\<close> or an \<open>hsl(h, s%, l%)\<close> text. For all non-empty runs of decimal digits
  \<open>d1\<close>, \<open>d2\<close>, \<open>d3\<close> (and any white space after the commas) it succeeds on both
  texts, and the \<open>rgb\<close> field of the first, the \<open>hsl\<close> field of the second, hold the
  \<open>Number\<close> values of the three runs: the integers themselves, unchanged, when they are
  at most \<open>2 ^ 53\<close>, and the nearest binary64 value above that. \<open>rgb(999, 0, 0)\<close> gives
  rgb (999, 0, 0). (The model of \<open>parseInt\<close> rounds the exact value of the digits; for a
  decimal integer of more than 20 significant digits ECMAScript also lets an engine
  replace the digits after the 20th by zeros first.)
\<close>

theorem parseColor_numbers_unchecked:
  assumes "d1 \<noteq> []" "list_all is_digit d1" "d2 \<noteq> []" "list_all is_digit d2"
    "d3 \<noteq> []" "list_all is_digit d3" "list_all is_ws w1" "list_all is_ws w2"
  shows "(\<exists>c. parseColor (rgb_text d1 w1 d2 w2 d3) = Inr c
      \<and> rgb c = \<lparr>rgb_r = rnd (of_int (decimal d1)), rgb_g = rnd (of_int (decimal d2)),
                 rgb_b = rnd (of_int (decimal d3))\<rparr>
      \<and> (decimal d1 \<le> 2 ^ 53 \<and> decimal d2 \<le> 2 ^ 53 \<and> decimal d3 \<le> 2 ^ 53 \<longrightarrow>
           rgb c = \<lparr>rgb_r = num (decimal d1), rgb_g = num (decimal d2),
                    rgb_b = num (decimal d3)\<rparr>))
    \<and> (\<exists>c. parseColor (hsl_text d1 w1 d2 w2 d3) = Inr c
      \<and> hsl c = \<lparr>hsl_h = rnd (of_int (decimal d1)), hsl_s = rnd (of_int (decimal d2)),
                 hsl_l = rnd (of_int (decimal d3))\<rparr>
      \<and> (decimal d1 \<le> 2 ^ 53 \<and> decimal d2 \<le> 2 ^ 53 \<and> decimal d3 \<le> 2 ^ 53 \<longrightarrow>
           hsl c = \<lparr>hsl_h = num (decimal d1), hsl_s = num (decimal d2),
                    hsl_l = num (decimal d3)\<rparr>))"
proof -
  note p = parseInt_digits [OF assms(1,2)] parseInt_digits [OF assms(3,4)]
    parseInt_digits [OF assms(5,6)]
  have "\<exists>c. parseColor (rgb_text d1 w1 d2 w2 d3) = Inr c
      \<and> rgb c = \<lparr>rgb_r = rnd (of_int (decimal d1)), rgb_g = rnd (of_int (decimal d2)),
                 rgb_b = rnd (of_int (decimal d3))\<rparr>
      \<and> (decimal d1 \<le> 2 ^ 53 \<and> decimal d2 \<le> 2 ^ 53 \<and> decimal d3 \<le> 2 ^ 53 \<longrightarrow>
           rgb c = \<lparr>rgb_r = num (decimal d1), rgb_g = num (decimal d2),
                    rgb_b = num (decimal d3)\<rparr>)"
    using parseColor_rgb_text [OF assms] p rnd_decimal by (simp add: decimal_def)
  moreover have "\<exists>c. parseColor (hsl_text d1 w1 d2 w2 d3) = Inr c
      \<and> hsl c = \<lparr>hsl_h = rnd (of_int (decimal d1)), hsl_s = rnd (of_int (decimal d2)),
                 hsl_l = rnd (of_int (decimal d3))\<rparr>
      \<and> (decimal d1 \<le> 2 ^ 53 \<and> decimal d2 \<le> 2 ^ 53 \<and> decimal d3 \<le> 2 ^ 53 \<longrightarrow>
           hsl c = \<lparr>hsl_h = num (decimal d1), hsl_s = num (decimal d2),
                    hsl_l = num (decimal d3)\<rparr>)"
    using parseColor_hsl_text [OF assms] p rnd_decimal by (simp add: decimal_def)
  ultimately show ?thesis by blast
qed

theorem parseColor_numbers_unchecked_witness:
  "''999'' \<noteq> [] \<and> list_all is_digit ''999'' \<and> ''0'' \<noteq> [] \<and> list_all is_digit ''0''
   \<and> list_all is_ws '' ''
   \<and> decimal ''999'' \<le> 2 ^ 53 \<and> decimal ''0'' \<le> 2 ^ 53
   \<and> (\<exists>c. parseColor ''rgb(999, 0, 0)'' = Inr c
          \<and> rgb c = \<lparr>rgb_r = num 999, rgb_g = num 0, rgb_b = num 0\<rparr>)
   \<and> (\<exists>c. parseColor ''hsl(999, 0%, 0%)'' = Inr c
          \<and> hsl c = \<lparr>hsl_h = num 999, hsl_s = num 0, hsl_l = num 0\<rparr>)"
  using parseColor_numbers_unchecked [of "''999''" "''0''" "''0''" "'' ''" "'' ''"]
  by (simp add: rgb_text_def hsl_text_def decimal_def is_digit_def is_ws_def digit_val_def)
    blast

text \<open>
  The value is not always carried unchanged: \<open>2 ^ 53 + 1\<close> is no binary64 number, and
  \<open>rgb(9007199254740993, 0, 0)\<close> comes back with the red channel 9007199254740992.
\<close>

theorem parseColor_rgb_not_unchanged:
  "map_sum id rgb (parseColor ''rgb(9007199254740993, 0, 0)'')
     = Inr \<lparr>rgb_r = num 9007199254740992, rgb_g = num 0, rgb_b = num 0\<rparr>
   \<and> num 9007199254740992 \<noteq> num 9007199254740993"
  using parseColor_rgb_text [of "''9007199254740993''" "''0''" "''0''" "'' ''" "'' ''"]
  by (simp add: rgb_text_def is_digit_def is_ws_def parseInt_2_53_plus_1 parseInt_0)

lemma hexToRgb_GGGGGG:
  "hexToRgb ''#GGGGGG'' = \<lparr>rgb_r = NaN, rgb_g = NaN, rgb_b = NaN\<rparr>"
  by (simp add: hexToRgb_def str_eval cong: let_weak_cong)

lemma rgbToHsl_NaN:
  "rgbToHsl \<lparr>rgb_r = NaN, rgb_g = NaN, rgb_b = NaN\<rparr>
     = \<lparr>hsl_h = Fin 0, hsl_s = NaN, hsl_l = NaN\<rparr>"
  by (simp add: rgbToHsl_def num_eval rnd_0 cong: let_weak_cong)

lemma hexToRgb_12345:
  "hexToRgb ''#12345'' = \<lparr>rgb_r = Fin 18, rgb_g = Fin 52, rgb_b = Fin 5\<rparr>"
  by (simp add: hexToRgb_def str_eval num_eval cong: let_weak_cong)

text \<open>
  C5, on the code. A text that starts with \<open>#\<close> is never rejected: \<open>#GGGGGG\<close> comes back
  as a colour whose channels are \<open>NaN\<close>, and the five-digit \<open>#12345\<close> as the colour
  (18, 52, 5). Only a text outside all four forms, such as \<open>notacolor\<close>, raises the
  error.
\<close>

theorem parseColor_hash_not_validated:
  "parseColor ''#GGGGGG''
     = Inr \<lparr>hex = ''#GGGGGG'', rgb = \<lparr>rgb_r = NaN, rgb_g = NaN, rgb_b = NaN\<rparr>,
            hsl = \<lparr>hsl_h = num 0, hsl_s = NaN, hsl_l = NaN\<rparr>, name = None\<rparr>
   \<and> (\<exists>c. parseColor ''#12345'' = Inr c \<and> hex c = ''#12345''
          \<and> rgb c = \<lparr>rgb_r = num 18, rgb_g = num 52, rgb_b = num 5\<rparr>)
   \<and> parseColor ''notacolor'' = Inl InvalidFormat"
proof -
  have "parseColor ''#GGGGGG''
      = Inr \<lparr>hex = ''#GGGGGG'', rgb = \<lparr>rgb_r = NaN, rgb_g = NaN, rgb_b = NaN\<rparr>,
             hsl = \<lparr>hsl_h = num 0, hsl_s = NaN, hsl_l = NaN\<rparr>, name = None\<rparr>"
    by (simp add: parseColor.simps parse_hash_def hexToRgb_GGGGGG rgbToHsl_NaN str_eval
          cong: let_weak_cong)
  moreover have "\<exists>c. parseColor ''#12345'' = Inr c \<and> hex c = ''#12345''
      \<and> rgb c = \<lparr>rgb_r = num 18, rgb_g = num 52, rgb_b = num 5\<rparr>"
    by (simp add: parseColor.simps parse_hash_def hexToRgb_12345 str_eval
          cong: let_weak_cong)
  moreover have "parseColor ''notacolor'' = Inl InvalidFormat"
    by (simp add: parseColor.simps str_eval cong: let_weak_cong)
  ultimately show ?thesis by blast
qed

section \<open>The fields of a parsed colour\<close>

definition canonical_hex :: "string \<Rightarrow> bool" where
  \<comment> \<open>\<open>#\<close> followed by exactly six digits out of \<open>0-9A-F\<close>\<close>
  "canonical_hex str =
     (case str of [] \<Rightarrow> False
      | c # cs \<Rightarrow> c = CHR ''#'' \<and> length cs = 6
                 \<and> list_all (\<lambda>x. x \<in> set ''0123456789ABCDEF'') cs)"

definition via_hsl_text :: "string \<Rightarrow> bool" where
  \<comment> \<open>the input reaches the \<open>hsl(...)\<close> branch of \<open>parseColor\<close>\<close>
  "via_hsl_text str =
     (let t = trim str
      in \<not> startsWith t ''#'' \<and> match t rgb_pattern = None \<and> match t hsl_pattern \<noteq> None)"

definition six_hex_text :: "string \<Rightarrow> bool" where
  \<comment> \<open>the input is six hexadecimal digits, with or without a leading \<open>#\<close>\<close>
  "six_hex_text str =
     (let t = trim str in is_hex6 t \<or> (startsWith t ''#'' \<and> is_hex6 (tl t)))"

lemma hex_digit_cases:
  assumes "is_radix_digit 16 c"
  shows "c \<in> set ''0123456789abcdefABCDEF''"
proof -
  from assms obtain v where v: "digit_val c = Some v" "v < 16"
    by (auto simp: is_radix_digit_def split: option.splits)
  show ?thesis
  proof (rule ccontr)
    assume "c \<notin> set ''0123456789abcdefABCDEF''"
    then have "digit_val c = None \<or> (\<exists>u. digit_val c = Some u \<and> 16 \<le> u)"
      by (simp add: digit_val_def)
    then show False using v by auto
  qed
qed

lemma hex_digit_props:
  assumes "is_radix_digit 16 c"
  shows "\<exists>v. digit_val c = Some v \<and> digit_val (upper_char c) = Some v \<and> 0 \<le> v \<and> v < 16"
    and "\<not> is_ws c" and "\<not> is_ws (upper_char c)"
    and "c \<notin> set ''-+xX#''" and "upper_char c \<notin> set ''-+xX#''"
    and "upper_char c \<in> set ''0123456789ABCDEF''"
proof -
  have "(\<exists>v. digit_val c = Some v \<and> digit_val (upper_char c) = Some v \<and> 0 \<le> v \<and> v < 16)
      \<and> \<not> is_ws c \<and> \<not> is_ws (upper_char c) \<and> c \<notin> set ''-+xX#''
      \<and> upper_char c \<notin> set ''-+xX#'' \<and> upper_char c \<in> set ''0123456789ABCDEF''"
    using hex_digit_cases [OF assms]
    by (simp only: set_simps insert_iff empty_iff)
      (elim disjE; simp add: digit_val_def upper_char_ascii is_ws_def)
  then show "\<exists>v. digit_val c = Some v \<and> digit_val (upper_char c) = Some v \<and> 0 \<le> v \<and> v < 16"
    and "\<not> is_ws c" and "\<not> is_ws (upper_char c)"
    and "c \<notin> set ''-+xX#''" and "upper_char c \<notin> set ''-+xX#''"
    and "upper_char c \<in> set ''0123456789ABCDEF''"
    by blast+
qed

lemma parseInt_pair_upper:
  assumes "is_radix_digit 16 a" "is_radix_digit 16 b"
  shows "parseInt [upper_char a, upper_char b] 16 = parseInt [a, b] 16"
proof -
  from hex_digit_props(1) [OF assms(1)] obtain u
    where u: "digit_val a = Some u" "digit_val (upper_char a) = Some u" "0 \<le> u" "u < 16"
    by blast
  from hex_digit_props(1) [OF assms(2)] obtain v
    where v: "digit_val b = Some v" "digit_val (upper_char b) = Some v" "0 \<le> v" "v < 16"
    by blast
  have "parseInt [a, b] 16 = num (16 * u + v)"
    using u v hex_digit_props(2,4) [OF assms(1)] hex_digit_props(4) [OF assms(2)]
    by (intro parseInt_hex_pair) simp_all
  moreover have "parseInt [upper_char a, upper_char b] 16 = num (16 * u + v)"
    using u v hex_digit_props(3,5) [OF assms(1)] hex_digit_props(5) [OF assms(2)]
    by (intro parseInt_hex_pair) simp_all
  ultimately show ?thesis by simp
qed

lemma hex6_elems:
  assumes "is_hex6 x"
  obtains a b c d e f where "x = [a, b, c, d, e, f]"
    "is_radix_digit 16 a" "is_radix_digit 16 b" "is_radix_digit 16 c"
    "is_radix_digit 16 d" "is_radix_digit 16 e" "is_radix_digit 16 f"
proof -
  from assms have len: "length x = 6" and all: "list_all (is_radix_digit 16) x"
    by (simp_all add: is_hex6_def)
  from len obtain a b c d e f where x: "x = [a, b, c, d, e, f]"
    by (auto simp: length_Suc_conv eval_nat_numeral)
  with all show ?thesis using that by simp
qed

lemma hash_hex6:
  assumes "is_hex6 x"
  shows "canonical_hex (toUpperCase (CHR ''#'' # x))"
    and "hexToRgb (toUpperCase (CHR ''#'' # x)) = hexToRgb (CHR ''#'' # x)"
    and "trim (CHR ''#'' # x) = CHR ''#'' # x"
proof -
  from assms obtain a b c d e f where x: "x = [a, b, c, d, e, f]"
    and h: "is_radix_digit 16 a" "is_radix_digit 16 b" "is_radix_digit 16 c"
    "is_radix_digit 16 d" "is_radix_digit 16 e" "is_radix_digit 16 f"
    by (rule hex6_elems)
  have up: "upper_char CHR ''#'' = CHR ''#''" by (simp add: upper_char_ascii)
  show "canonical_hex (toUpperCase (CHR ''#'' # x))"
    using h [THEN hex_digit_props(6)]
    unfolding canonical_hex_def toUpperCase_def x by (simp add: up)
  show "hexToRgb (toUpperCase (CHR ''#'' # x)) = hexToRgb (CHR ''#'' # x)"
    using parseInt_pair_upper [OF h(1,2)] parseInt_pair_upper [OF h(3,4)]
      parseInt_pair_upper [OF h(5,6)]
    unfolding x by (simp add: hexToRgb_def toUpperCase_def up startsWith_def substring_def)
  show "trim (CHR ''#'' # x) = CHR ''#'' # x"
    using hex_digit_props(2) [OF h(6)] unfolding x by (simp add: trim_def is_ws_def)
qed

lemma canonical_rgbToHex:
  assumes "0 \<le> a" "a \<le> 255" "0 \<le> b" "b \<le> 255" "0 \<le> d" "d \<le> 255"
  shows "canonical_hex (rgbToHex \<lparr>rgb_r = num a, rgb_g = num b, rgb_b = num d\<rparr>)"
proof -
  have u: "upper_char (hex_char k) \<in> set ''0123456789ABCDEF''" if "0 \<le> k" "k < 16" for k
  proof -
    have "k = 0 \<or> k = 1 \<or> k = 2 \<or> k = 3 \<or> k = 4 \<or> k = 5 \<or> k = 6 \<or> k = 7 \<or> k = 8 \<or> k = 9
        \<or> k = 10 \<or> k = 11 \<or> k = 12 \<or> k = 13 \<or> k = 14 \<or> k = 15"
      using that by arith
    then show ?thesis by (elim disjE; simp add: hex_char_def upper_char_ascii)
  qed
  have d: "0 \<le> k div 16" "k div 16 < 16" "0 \<le> k mod 16" "k mod 16 < 16"
    if "0 \<le> k" "k \<le> 255" for k :: int
    using that by simp_all
  have "upper_char (hex_char (k div 16)) \<in> set ''0123456789ABCDEF''"
    "upper_char (hex_char (k mod 16)) \<in> set ''0123456789ABCDEF''"
    if "0 \<le> k" "k \<le> 255" for k
    using u d [OF that] by blast+
  then show ?thesis
    using assms
    by (simp add: canonical_hex_def rgbToHex_def toUpperCase_def toHex_byte
          upper_char_ascii)
qed

lemma in_range_hex:
  assumes "int_between 0 255 (rgb_r c)" "int_between 0 255 (rgb_g c)"
    "int_between 0 255 (rgb_b c)"
  shows "canonical_hex (rgbToHex c)" and "hexToRgb (rgbToHex c) = c"
proof -
  from assms(1) obtain a where a: "rgb_r c = num a" "0 \<le> a" "a \<le> 255" by (rule int_betweenE)
  from assms(2) obtain b where b: "rgb_g c = num b" "0 \<le> b" "b \<le> 255" by (rule int_betweenE)
  from assms(3) obtain d where d: "rgb_b c = num d" "0 \<le> d" "d \<le> 255" by (rule int_betweenE)
  have c: "c = \<lparr>rgb_r = num a, rgb_g = num b, rgb_b = num d\<rparr>"
    using a(1) b(1) d(1) by (cases c) simp
  show "canonical_hex (rgbToHex c)"
    unfolding c by (rule canonical_rgbToHex [OF a(2,3) b(2,3) d(2,3)])
  show "hexToRgb (rgbToHex c) = c"
    unfolding c by (rule hexToRgb_rgbToHex_num [OF a(2,3) b(2,3) d(2,3)])
qed

lemma upper_char_table:
  "c \<in> set (''abcdefghijklmnopqrstuvwxyz'' @ lower_latin1) \<or> upper_char c = c"
proof (cases "map_of (zip (''abcdefghijklmnopqrstuvwxyz'' @ lower_latin1)
                       (''ABCDEFGHIJKLMNOPQRSTUVWXYZ'' @ upper_latin1)) c")
  case None
  then have "upper_char c = c" unfolding upper_char_def by (simp only: option.case)
  then show ?thesis ..
next
  case (Some u)
  then have "(c, u) \<in> set (zip (''abcdefghijklmnopqrstuvwxyz'' @ lower_latin1)
                       (''ABCDEFGHIJKLMNOPQRSTUVWXYZ'' @ upper_latin1))"
    by (rule map_of_SomeD)
  then have "c \<in> set (''abcdefghijklmnopqrstuvwxyz'' @ lower_latin1)"
    by (rule set_zip_leftD)
  then show ?thesis ..
qed

lemma upper_char_latin1:
  "map upper_char lower_latin1 = upper_latin1"
  by (simp add: upper_char_def)

lemma upper_char_props:
  "digit_val (upper_char c) = digit_val c" "is_ws (upper_char c) = is_ws c"
  "upper_char c = CHR ''#'' \<longleftrightarrow> c = CHR ''#''"
  "upper_char c = CHR ''-'' \<longleftrightarrow> c = CHR ''-''"
  "upper_char c = CHR ''+'' \<longleftrightarrow> c = CHR ''+''"
  "upper_char c = CHR ''0'' \<longleftrightarrow> c = CHR ''0''"
  "upper_char c \<noteq> CHR ''x''"
  "upper_char c = CHR ''X'' \<longleftrightarrow> c = CHR ''x'' \<or> c = CHR ''X''"
proof -
  have "digit_val (upper_char c) = digit_val c \<and> is_ws (upper_char c) = is_ws c
      \<and> (upper_char c = CHR ''#'' \<longleftrightarrow> c = CHR ''#'')
      \<and> (upper_char c = CHR ''-'' \<longleftrightarrow> c = CHR ''-'')
      \<and> (upper_char c = CHR ''+'' \<longleftrightarrow> c = CHR ''+'')
      \<and> (upper_char c = CHR ''0'' \<longleftrightarrow> c = CHR ''0'')
      \<and> upper_char c \<noteq> CHR ''x''
      \<and> (upper_char c = CHR ''X'' \<longleftrightarrow> c = CHR ''x'' \<or> c = CHR ''X'')"
    using upper_char_table [of c]
  proof
    assume "c \<in> set (''abcdefghijklmnopqrstuvwxyz'' @ lower_latin1)"
    then show ?thesis
      by (simp only: set_simps set_append Un_iff insert_iff empty_iff)
        (use upper_char_latin1 in \<open>elim disjE; simp add: upper_char_ascii digit_val_def is_ws_def\<close>)
  next
    assume u: "upper_char c = c"
    have "c \<noteq> CHR ''x''" using u by (auto simp: upper_char_def)
    then show ?thesis using u by simp
  qed
  then show "digit_val (upper_char c) = digit_val c" "is_ws (upper_char c) = is_ws c"
    "upper_char c = CHR ''#'' \<longleftrightarrow> c = CHR ''#''"
    "upper_char c = CHR ''-'' \<longleftrightarrow> c = CHR ''-''"
    "upper_char c = CHR ''+'' \<longleftrightarrow> c = CHR ''+''"
    "upper_char c = CHR ''0'' \<longleftrightarrow> c = CHR ''0''"
    "upper_char c \<noteq> CHR ''x''"
    "upper_char c = CHR ''X'' \<longleftrightarrow> c = CHR ''x'' \<or> c = CHR ''X''"
    by blast+
qed

lemma digits_value_upper:
  "digits_value R acc (map upper_char z) = digits_value R acc z"
  by (induction z arbitrary: acc) (simp_all add: upper_char_props(1))

lemma startsWith_upper:
  "startsWith (map upper_char s) ''#'' = startsWith s ''#''"
  "startsWith (map upper_char s) ''-'' = startsWith s ''-''"
  "startsWith (map upper_char s) ''+'' = startsWith s ''+''"
  by (cases s; simp add: startsWith_def upper_char_props)+

lemma prefix_upper:
  "(startsWith (map upper_char s) ''0x'' \<or> startsWith (map upper_char s) ''0X'')
     = (startsWith s ''0x'' \<or> startsWith s ''0X'')"
proof (cases s)
  case Nil
  then show ?thesis by (simp add: startsWith_def)
next
  case (Cons a t)
  then show ?thesis
    by (cases t) (auto simp: startsWith_def upper_char_props)
qed

lemma parseInt_upper: "parseInt (map upper_char s) R = parseInt s R"
proof -
  have ws: "is_ws \<circ> upper_char = is_ws" by (rule ext) (simp add: upper_char_props(2))
  have rd: "is_radix_digit K \<circ> upper_char = is_radix_digit K" for K
    by (rule ext) (simp add: is_radix_digit_def upper_char_props(1))
  define s0 where "s0 = dropWhile is_ws s"
  have d: "dropWhile is_ws (map upper_char s) = map upper_char s0"
    by (simp add: dropWhile_map ws s0_def)
  define s1 where "s1 = (if startsWith s0 ''-'' \<or> startsWith s0 ''+'' then tl s0 else s0)"
  have e: "(if startsWith s0 ''-'' \<or> startsWith s0 ''+''
            then tl (map upper_char s0) else map upper_char s0) = map upper_char s1"
    by (simp add: startsWith_upper s1_def map_tl)
  define pre where "pre = ((R = 0 \<or> R = 16) \<and> (startsWith s1 ''0x'' \<or> startsWith s1 ''0X''))"
  have f: "((R = 0 \<or> R = 16)
        \<and> (startsWith (map upper_char s1) ''0x'' \<or> startsWith (map upper_char s1) ''0X'')) = pre"
    by (simp only: prefix_upper pre_def)
  define s2 where "s2 = (if pre then drop 2 s1 else s1)"
  have g: "(if pre then drop 2 (map upper_char s1) else map upper_char s1) = map upper_char s2"
    by (simp add: s2_def drop_map)
  have h: "takeWhile (is_radix_digit K) (map upper_char s2)
      = map upper_char (takeWhile (is_radix_digit K) s2)" for K
    by (simp add: takeWhile_map rd)
  have "parseInt (map upper_char s) R =
     (let R' = (if pre then 16 else if R = 0 then 10 else R);
          z = takeWhile (is_radix_digit R') s2
      in if R' < 2 \<or> 36 < R' then NaN
         else if z = [] then NaN
         else rnd (of_int ((if startsWith s0 ''-'' then - 1 else 1) * digits_value R' 0 z)))"
    unfolding parseInt_def Let_def d startsWith_upper e f g h
    by (simp only: digits_value_upper map_is_Nil_conv)
  also have "\<dots> = parseInt s R"
    unfolding parseInt_def Let_def s0_def [symmetric] s1_def [symmetric] pre_def [symmetric]
      s2_def [symmetric] ..
  finally show ?thesis .
qed

lemma hexToRgb_upper: "hexToRgb (toUpperCase t) = hexToRgb t"
proof -
  define h1 where "h1 = (if startsWith t ''#'' then tl t else t)"
  define h2 where "h2 = (if length h1 = 3 then concat (map (\<lambda>c. [c, c]) h1) else h1)"
  have a: "(if startsWith t ''#'' then tl (map upper_char t)
            else map upper_char t) = map upper_char h1"
    by (simp add: startsWith_upper h1_def map_tl)
  have b: "(if length (map upper_char h1) = 3
            then concat (map (\<lambda>c. [c, c]) (map upper_char h1)) else map upper_char h1)
      = map upper_char h2"
    by (simp add: h2_def map_concat comp_def)
  have c: "substring (map upper_char h2) i j = map upper_char (substring h2 i j)" for i j
    by (simp add: substring_def take_map drop_map)
  have "hexToRgb (toUpperCase t)
      = \<lparr>rgb_r = parseInt (substring h2 0 2) 16, rgb_g = parseInt (substring h2 2 4) 16,
         rgb_b = parseInt (substring h2 4 6) 16\<rparr>"
    unfolding hexToRgb_def toUpperCase_def Let_def startsWith_upper a b c parseInt_upper ..
  also have "\<dots> = hexToRgb t"
    unfolding hexToRgb_def Let_def h1_def [symmetric] h2_def [symmetric] ..
  finally show ?thesis .
qed

lemma upper_char_H: "upper_char x = CHR ''H'' \<Longrightarrow> x = CHR ''h'' \<or> x = CHR ''H''"
  by (simp add: upper_char_def split: option.splits if_splits)

lemma no_hsl_match:
  assumes "CHR ''h'' \<notin> set str" "CHR ''H'' \<notin> set str"
  shows "match str hsl_pattern = None"
  using assms
proof (induction str)
  case Nil
  then show ?case by (simp add: hsl_pattern_def)
next
  case (Cons x xs)
  have "upper_char x \<noteq> CHR ''H''" using Cons.prems upper_char_H [of x] by auto
  then have "match_items hsl_pattern (x # xs) [] = None"
    by (simp add: hsl_pattern_def upper_char_ascii)
  then show ?case using Cons by simp
qed

lemma hex6_no_match:
  assumes "is_hex6 t"
  shows "\<not> startsWith t ''#''" "match t rgb_pattern = None" "match t hsl_pattern = None"
proof -
  have "c \<in> set ''0123456789abcdefABCDEF''" if "c \<in> set t" for c
    using assms that hex_digit_cases by (simp add: is_hex6_def list_all_iff)
  then have n: "c \<notin> set t" if "c \<in> set ''#rRhH''" for c
    using that by auto
  show "\<not> startsWith t ''#''"
    using n [of "CHR ''#''"] by (cases t) (auto simp: startsWith_def)
  show "match t rgb_pattern = None"
    using n [of "CHR ''r''"] n [of "CHR ''R''"] by (intro no_rgb_match) simp_all
  show "match t hsl_pattern = None"
    using n [of "CHR ''h''"] n [of "CHR ''H''"] by (intro no_hsl_match) simp_all
qed

lemma parseColor_cases:
  assumes "parseColor str = Inr c"
  defines "t \<equiv> trim str"
  obtains (hash) "startsWith t ''#''" "c = parse_hash t"
  | (rgb) m where "\<not> startsWith t ''#''" "match t rgb_pattern = Some m"
      "c = \<lparr>hex = rgbToHex (rgb c), rgb = rgb c, hsl = rgbToHsl (rgb c), name = None\<rparr>"
  | (hsl) m where "\<not> startsWith t ''#''" "match t rgb_pattern = None"
      "match t hsl_pattern = Some m"
      "hsl c = \<lparr>hsl_h = parseInt (m ! 0) 0, hsl_s = parseInt (m ! 1) 0,
                 hsl_l = parseInt (m ! 2) 0\<rparr>"
      "c = \<lparr>hex = rgbToHex (hslToRgb (hsl c)), rgb = hslToRgb (hsl c), hsl = hsl c,
             name = None\<rparr>"
  | (bare) "\<not> startsWith t ''#''" "match t rgb_pattern = None" "match t hsl_pattern = None"
      "is_hex6 t" "c = parse_hash (CHR ''#'' # t)"
proof (cases "startsWith t ''#''")
  case True
  then have "c = parse_hash t"
    using assms(1) by (subst (asm) parseColor.simps) (simp add: t_def Let_def)
  with True show ?thesis by (rule hash)
next
  case ns: False
  show ?thesis
  proof (cases "match t rgb_pattern")
    case (Some m)
    then have "c = \<lparr>hex = rgbToHex (rgb c), rgb = rgb c, hsl = rgbToHsl (rgb c), name = None\<rparr>"
      using assms(1) ns by (subst (asm) parseColor.simps) (auto simp: t_def Let_def)
    with ns Some show ?thesis by (rule rgb)
  next
    case nr: None
    show ?thesis
    proof (cases "match t hsl_pattern")
      case (Some m)
      then have "c = \<lparr>hex = rgbToHex (hslToRgb (hsl c)), rgb = hslToRgb (hsl c), hsl = hsl c,
          name = None\<rparr>"
        and "hsl c = \<lparr>hsl_h = parseInt (m ! 0) 0, hsl_s = parseInt (m ! 1) 0,
                 hsl_l = parseInt (m ! 2) 0\<rparr>"
        using assms(1) ns nr by (subst (asm) parseColor.simps, auto simp: t_def Let_def)+
      with ns nr Some show ?thesis using hsl by blast
    next
      case nh: None
      have step: "parseColor str = (if is_hex6 t then parseColor (''#'' @ t) else Inl InvalidFormat)"
        using ns nr nh by (subst parseColor.simps) (simp add: t_def Let_def)
      then have h6: "is_hex6 t" using assms(1) by (auto split: if_splits)
      have "parseColor (CHR ''#'' # t) = Inr (parse_hash (CHR ''#'' # t))"
        by (subst parseColor.simps) (simp add: hash_hex6(3) [OF h6] startsWith_def Let_def)
      then have "c = parse_hash (CHR ''#'' # t)" using step h6 assms(1) by simp
      with ns nr nh h6 show ?thesis by (rule bare)
    qed
  qed
qed

text \<open>
  C4 (as amended). Every ColorInfo that \<open>parseColor\<close> returns is consistent in the
  direction in which it was computed. For an \<open>hsl(...)\<close> text the \<open>hsl\<close> field is the
  triple read from the text, \<open>rgb = hslToRgb(hsl)\<close> and \<open>hex = rgbToHex(rgb)\<close>; for every
  other input \<open>hsl = rgbToHsl(rgb)\<close>. For six hexadecimal digits, with or without \<open>#\<close>,
  the hex field is \<open>#\<close> with six upper-case hexadecimal digits and \<open>rgb = hexToRgb(hex)\<close>;
  for an \<open>rgb(...)\<close> or \<open>hsl(...)\<close> text the same holds whenever the channels are
  integers in [0, 255]. For every text that starts with \<open>#\<close> (and has none of the three
  code units that \<open>one_unit_upper\<close> excludes) \<open>rgb = hexToRgb(hex)\<close>, as an equality of
  values: a channel that is \<open>NaN\<close> on one side is \<open>NaN\<close> on the other.
\<close>

theorem parseColor_consistency:
  assumes "parseColor str = Inr c"
  shows "(via_hsl_text str \<longrightarrow>
        (\<exists>m. match (trim str) hsl_pattern = Some m
           \<and> hsl c = \<lparr>hsl_h = parseInt (m ! 0) 0, hsl_s = parseInt (m ! 1) 0,
                      hsl_l = parseInt (m ! 2) 0\<rparr>)
        \<and> rgb c = hslToRgb (hsl c) \<and> hex c = rgbToHex (rgb c))
    \<and> (\<not> via_hsl_text str \<longrightarrow> hsl c = rgbToHsl (rgb c))
    \<and> (six_hex_text str \<longrightarrow> canonical_hex (hex c) \<and> rgb c = hexToRgb (hex c))
    \<and> (\<not> startsWith (trim str) ''#'' \<and> int_between 0 255 (rgb_r (rgb c))
          \<and> int_between 0 255 (rgb_g (rgb c)) \<and> int_between 0 255 (rgb_b (rgb c)) \<longrightarrow>
        canonical_hex (hex c) \<and> rgb c = hexToRgb (hex c))
    \<and> (startsWith (trim str) ''#'' \<and> list_all one_unit_upper str \<longrightarrow>
        rgb c = hexToRgb (hex c))"
  using assms
proof (cases rule: parseColor_cases)
  case hash
  have t: "trim str = CHR ''#'' # tl (trim str)"
    using hash(1) by (cases "trim str") (simp_all add: startsWith_def)
  have "canonical_hex (hex c)" if "is_hex6 (tl (trim str))"
    using hash_hex6(1) [OF that] t by (simp add: hash(2) parse_hash_def)
  moreover have "rgb c = hexToRgb (hex c)"
    by (simp add: hash(2) parse_hash_def hexToRgb_upper)
  moreover have "\<not> is_hex6 (trim str)"
    using hash(1) hex6_no_match(1) by blast
  ultimately show ?thesis
    using hash(1) by (auto simp: via_hsl_text_def six_hex_text_def hash(2) parse_hash_def)
next
  case (rgb m)
  have "hex c = rgbToHex (rgb c)" "hsl c = rgbToHsl (rgb c)"
    by (subst rgb(3), simp)+
  moreover have "\<not> is_hex6 (trim str)"
    using rgb(2) hex6_no_match(2) by fastforce
  ultimately show ?thesis
    using rgb(1,2) in_range_hex [of "rgb c"] by (auto simp: via_hsl_text_def six_hex_text_def)
next
  case (hsl m)
  have "hex c = rgbToHex (hslToRgb (hsl c))" "rgb c = hslToRgb (hsl c)"
    by (subst hsl(5), simp)+
  moreover have "\<not> is_hex6 (trim str)"
    using hsl(3) hex6_no_match(3) by fastforce
  ultimately show ?thesis
    using hsl(1-4) in_range_hex [of "rgb c"] by (auto simp: via_hsl_text_def six_hex_text_def)
next
  case bare
  show ?thesis
    using bare(1-3) hash_hex6(1,2) [OF bare(4)]
    by (auto simp: via_hsl_text_def six_hex_text_def bare(5) parse_hash_def)
qed

lemma branch_hash_red:
  "six_hex_text ''#FF0000''" "startsWith (trim ''#FF0000'') ''#''"
  "list_all one_unit_upper ''#FF0000''" "\<not> via_hsl_text ''#FF0000''"
  by (simp_all add: six_hex_text_def via_hsl_text_def one_unit_upper_def str_eval
        cong: let_weak_cong)

lemma branch_rgb_red:
  "\<not> via_hsl_text ''rgb(255, 0, 0)''" "\<not> startsWith (trim ''rgb(255, 0, 0)'') ''#''"
  by (simp_all add: via_hsl_text_def str_eval cong: let_weak_cong)


lemma branch_hsl_red: "via_hsl_text ''hsl(0, 100%, 50%)''"
  by (simp add: via_hsl_text_def str_eval cong: let_weak_cong)

theorem parseColor_consistency_witness:
  "parseColor ''hsl(0, 100%, 50%)'' = Inr pure_red
   \<and> via_hsl_text ''hsl(0, 100%, 50%)''
   \<and> (\<exists>m. match (trim ''hsl(0, 100%, 50%)'') hsl_pattern = Some m
         \<and> hsl pure_red = \<lparr>hsl_h = parseInt (m ! 0) 0, hsl_s = parseInt (m ! 1) 0,
                           hsl_l = parseInt (m ! 2) 0\<rparr>)
   \<and> rgb pure_red = hslToRgb (hsl pure_red) \<and> hex pure_red = rgbToHex (rgb pure_red)
   \<and> parseColor ''rgb(255, 0, 0)'' = Inr pure_red
   \<and> \<not> via_hsl_text ''rgb(255, 0, 0)'' \<and> \<not> startsWith (trim ''rgb(255, 0, 0)'') ''#''
   \<and> int_between 0 255 (rgb_r (rgb pure_red)) \<and> int_between 0 255 (rgb_g (rgb pure_red))
   \<and> int_between 0 255 (rgb_b (rgb pure_red))
   \<and> hsl pure_red = rgbToHsl (rgb pure_red)
   \<and> canonical_hex (hex pure_red) \<and> rgb pure_red = hexToRgb (hex pure_red)
   \<and> parseColor ''#FF0000'' = Inr pure_red
   \<and> six_hex_text ''#FF0000'' \<and> startsWith (trim ''#FF0000'') ''#''
   \<and> list_all one_unit_upper ''#FF0000''"
proof -
  have r: "int_between 0 255 (rgb_r (rgb pure_red))" "int_between 0 255 (rgb_g (rgb pure_red))"
    "int_between 0 255 (rgb_b (rgb pure_red))"
    by (simp_all add: pure_red_def int_between_def)
  show ?thesis
    using parseColor_consistency [OF parseColor_rgb_red]
      parseColor_consistency [OF parseColor_hsl_red]
      parseColor_consistency [OF parseColor_hash_red]
      parseColor_rgb_red parseColor_hsl_red parseColor_hash_red
      branch_rgb_red branch_hsl_red branch_hash_red r
    by blast
qed

lemma rgbToHex_242_242_243:
  "rgbToHex \<lparr>rgb_r = Fin 242, rgb_g = Fin 242, rgb_b = Fin 243\<rparr> = ''#F2F2F3''"
  by (simp add: rgbToHex_def str_eval cong: let_weak_cong)

lemma parseColor_hsl_200_5_95:
  "parseColor ''hsl(200, 5%, 95%)''
     = Inr \<lparr>hex = ''#F2F2F3'', rgb = \<lparr>rgb_r = Fin 242, rgb_g = Fin 242, rgb_b = Fin 243\<rparr>,
            hsl = \<lparr>hsl_h = Fin 200, hsl_s = Fin 5, hsl_l = Fin 95\<rparr>, name = None\<rparr>"
  by (simp add: parseColor.simps hslToRgb_200_5_95 rgbToHex_242_242_243 str_eval num_eval
        cong: let_weak_cong)

text \<open>
  The \<open>hsl\<close> field of an \<open>hsl(...)\<close> text is not \<open>rgbToHsl(rgb)\<close>:
  \<open>hsl(200, 5%, 95%)\<close> keeps (200, 5, 95), its \<open>rgb\<close> field is (242, 242, 243), and
  \<open>rgbToHsl\<close> of that is (240, 4, 95).
\<close>

theorem parseColor_fields_differ:
  "parseColor ''hsl(200, 5%, 95%)''
     = Inr \<lparr>hex = ''#F2F2F3'', rgb = \<lparr>rgb_r = num 242, rgb_g = num 242, rgb_b = num 243\<rparr>,
            hsl = \<lparr>hsl_h = num 200, hsl_s = num 5, hsl_l = num 95\<rparr>, name = None\<rparr>
   \<and> rgbToHsl \<lparr>rgb_r = num 242, rgb_g = num 242, rgb_b = num 243\<rparr>
       = \<lparr>hsl_h = num 240, hsl_s = num 4, hsl_l = num 95\<rparr>
   \<and> \<lparr>hsl_h = num 200, hsl_s = num 5, hsl_l = num 95\<rparr>
       \<noteq> rgbToHsl \<lparr>rgb_r = num 242, rgb_g = num 242, rgb_b = num 243\<rparr>"
  by (simp add: parseColor_hsl_200_5_95 rgbToHsl_242_242_243)

lemma hexToRgb_abc:
  "hexToRgb ''#abc'' = \<lparr>rgb_r = Fin 170, rgb_g = Fin 187, rgb_b = Fin 204\<rparr>"
  by (simp add: hexToRgb_def str_eval num_eval cong: let_weak_cong)

lemma rgbToHsl_170_187_204:
  "rgbToHsl \<lparr>rgb_r = Fin 170, rgb_g = Fin 187, rgb_b = Fin 204\<rparr>
     = \<lparr>hsl_h = Fin 210, hsl_s = Fin 25, hsl_l = Fin 73\<rparr>"
  by (simp add: rgbToHsl_def num_eval cong: let_weak_cong)

lemma parseColor_abc:
  "parseColor ''#abc''
     = Inr \<lparr>hex = ''#ABC'', rgb = \<lparr>rgb_r = Fin 170, rgb_g = Fin 187, rgb_b = Fin 204\<rparr>,
            hsl = \<lparr>hsl_h = Fin 210, hsl_s = Fin 25, hsl_l = Fin 73\<rparr>, name = None\<rparr>"
  by (simp add: parseColor.simps parse_hash_def hexToRgb_abc rgbToHsl_170_187_204 str_eval
        cong: let_weak_cong)

text \<open>
  The \<open>#\<close> branch does not bring its text into the form \<open>#RRGGBB\<close> that the other
  branches produce: the shorthand \<open>#abc\<close> comes back with the hex field \<open>#ABC\<close>.
\<close>

lemma parseColor_shorthand_hex:
  "map_sum id hex (parseColor ''#abc'') = Inr ''#ABC''" "\<not> canonical_hex ''#ABC''"
  by (simp_all add: parseColor_abc canonical_hex_def)

end
